theory Spec2Isabelle
  imports Complex_Main "HOL-Library.Word"
begin

section \<open>Errors\<close>

text \<open>
  The two ways in which the modelled routines stop: a thrown \<open>std::runtime_error\<close> (with
  its message) and a failed \<open>assert\<close>.
\<close>

datatype error = RuntimeError string | AssertionFailure

section \<open>Rectangular meshes with ghost zones (\<open>MeshvarBnd\<close>)\<close>

text \<open>
  \<open>m_nx, m_ny, m_nz\<close> are the allocated extents (\<open>size_t\<close>, ghost zones included); an
  allocated array bounds them far below \<open>2 ^ 64\<close>, so they are natural numbers. The
  offsets are C++ \<open>int\<close>s and are kept as their 32-bit patterns (\<open>sint\<close> reads the value).
  \<open>m_pdata\<close> is the block behind the pointer, addressed by the flat offset from its start;
  the offsets \<open>0 \<le> q < m_nx * m_ny * m_nz\<close> are the allocated array.
\<close>

record MeshvarBnd =
  m_nx :: nat
  m_ny :: nat
  m_nz :: nat
  m_offx :: "32 word"
  m_offy :: "32 word"
  m_offz :: "32 word"
  m_pdata :: "int \<Rightarrow> real"
  m_nbnd :: nat

text \<open>
  The general constructor \<open>MeshvarBnd(nbnd, nx, ny, nz, xoff, yoff, zoff)\<close>: it allocates
  \<open>(nx + 2 nbnd) (ny + 2 nbnd) (nz + 2 nbnd)\<close> cells and does not initialise them;
  \<open>uninit\<close> is the content of the fresh memory.
\<close>

definition MeshvarBnd_new ::
  "nat \<Rightarrow> nat \<Rightarrow> nat \<Rightarrow> nat \<Rightarrow> 32 word \<Rightarrow> 32 word \<Rightarrow> 32 word \<Rightarrow> (int \<Rightarrow> real) \<Rightarrow> MeshvarBnd" where
  "MeshvarBnd_new nbnd nx ny nz xoff yoff zoff uninit =
     \<lparr>m_nx = nx + 2 * nbnd, m_ny = ny + 2 * nbnd, m_nz = nz + 2 * nbnd,
      m_offx = xoff, m_offy = yoff, m_offz = zoff, m_pdata = uninit, m_nbnd = nbnd\<rparr>"

text \<open>\<open>MeshvarBnd::size(dim)\<close>: the logical extent, without the ghost margin.\<close>

definition size_bnd :: "MeshvarBnd \<Rightarrow> nat \<Rightarrow> nat" where
  "size_bnd g d =
     (if d = 0 then m_nx g - 2 * m_nbnd g
      else if d = 1 then m_ny g - 2 * m_nbnd g
      else m_nz g - 2 * m_nbnd g)"

text \<open>\<open>Meshvar::offset(dim)\<close>.\<close>

definition offset_bnd :: "MeshvarBnd \<Rightarrow> nat \<Rightarrow> 32 word" where
  "offset_bnd g d = (if d = 0 then m_offx g else if d = 1 then m_offy g else m_offz g)"

text \<open>
  \<open>MeshvarBnd::operator()(ix, iy, iz)\<close>: the cell \<open>(ix, iy, iz)\<close> lives at the flat
  offset \<open>((ix + nbnd) * m_ny + (iy + nbnd)) * m_nz + (iz + nbnd)\<close>.
\<close>

definition bnd_index :: "MeshvarBnd \<Rightarrow> int \<Rightarrow> int \<Rightarrow> int \<Rightarrow> int" where
  "bnd_index g ix iy iz =
     ((ix + int (m_nbnd g)) * int (m_ny g) + (iy + int (m_nbnd g))) * int (m_nz g)
       + (iz + int (m_nbnd g))"

definition bnd_get :: "MeshvarBnd \<Rightarrow> int \<Rightarrow> int \<Rightarrow> int \<Rightarrow> real" where
  "bnd_get g ix iy iz = m_pdata g (bnd_index g ix iy iz)"

definition bnd_set :: "MeshvarBnd \<Rightarrow> int \<Rightarrow> int \<Rightarrow> int \<Rightarrow> real \<Rightarrow> MeshvarBnd" where
  "bnd_set g ix iy iz v = g\<lparr>m_pdata := (m_pdata g)(bnd_index g ix iy iz := v)\<rparr>"

text \<open>\<open>Meshvar::zero()\<close>: one flat loop over the allocated cells.\<close>

definition zero_bnd :: "MeshvarBnd \<Rightarrow> MeshvarBnd" where
  "zero_bnd g =
     g\<lparr>m_pdata := fold (\<lambda>i d. d(int i := 0)) [0..<m_nx g * m_ny g * m_nz g] (m_pdata g)\<rparr>"

section \<open>Refinement masks\<close>

text \<open>
  \<open>refinement_mask\<close>: a \<open>std::vector<short>\<close> and its three extents (the fields
  \<open>mask_, nx_, ny_, nz_\<close> of the source).
\<close>

record refinement_mask =
  rm_mask :: "int list"
  rm_nx :: nat
  rm_ny :: nat
  rm_nz :: nat

definition refinement_mask_new :: "nat \<Rightarrow> nat \<Rightarrow> nat \<Rightarrow> int \<Rightarrow> refinement_mask" where
  "refinement_mask_new nx ny nz v =
     \<lparr>rm_mask = replicate (nx * ny * nz) v, rm_nx = nx, rm_ny = ny, rm_nz = nz\<rparr>"

section \<open>The nested grid collection (\<open>GridHierarchy\<close>)\<close>

text \<open>
  \<open>h_nbnd\<close> is the hierarchy's own \<open>m_nbnd\<close>. Every grid pointer owns its mesh, so the
  vector of pointers is a list of meshes.
\<close>

record GridHierarchy =
  h_nbnd :: nat
  m_levelmin :: nat
  m_pgrids :: "MeshvarBnd list"
  m_xoffabs :: "32 word list"
  m_yoffabs :: "32 word list"
  m_zoffabs :: "32 word list"
  m_ref_masks :: "refinement_mask list"
  bhave_refmask :: bool

text \<open>
  \<open>levelmax()\<close> returns \<open>m_pgrids.size() - 1\<close> as an \<open>unsigned\<close>: on an empty hierarchy
  it wraps to \<open>2 ^ 32 - 1\<close>.
\<close>

definition levelmax :: "GridHierarchy \<Rightarrow> nat" where
  "levelmax gh = (length (m_pgrids gh) + 2 ^ 32 - 1) mod 2 ^ 32"

definition levelmin :: "GridHierarchy \<Rightarrow> nat" where
  "levelmin gh = m_levelmin gh"

definition get_grid :: "GridHierarchy \<Rightarrow> nat \<Rightarrow> error + MeshvarBnd" where
  "get_grid gh ilevel =
     (if ilevel \<ge> length (m_pgrids gh)
      then Inl (RuntimeError ''Fatal: attempt to access non-existent grid'')
      else Inr (m_pgrids gh ! ilevel))"

text \<open>\<open>offset(ilevel, idim)\<close>, \<open>size(ilevel, idim)\<close> and \<open>offset_abs(ilevel, idim)\<close>.\<close>

definition offset_h :: "GridHierarchy \<Rightarrow> nat \<Rightarrow> nat \<Rightarrow> 32 word" where
  "offset_h gh ilevel idim = offset_bnd (m_pgrids gh ! ilevel) idim"

definition size_h :: "GridHierarchy \<Rightarrow> nat \<Rightarrow> nat \<Rightarrow> nat" where
  "size_h gh ilevel idim = size_bnd (m_pgrids gh ! ilevel) idim"

definition offset_abs :: "GridHierarchy \<Rightarrow> nat \<Rightarrow> nat \<Rightarrow> 32 word" where
  "offset_abs gh ilevel idim =
     (if idim = 0 then m_xoffabs gh ! ilevel
      else if idim = 1 then m_yoffabs gh ! ilevel
      else m_zoffabs gh ! ilevel)"

text \<open>The constructor \<open>GridHierarchy(nbnd)\<close>: an empty hierarchy, no grids are stored.\<close>

definition GridHierarchy_new :: "nat \<Rightarrow> GridHierarchy" where
  "GridHierarchy_new nbnd =
     \<lparr>h_nbnd = nbnd, m_levelmin = 0, m_pgrids = [], m_xoffabs = [], m_yoffabs = [],
      m_zoffabs = [], m_ref_masks = [], bhave_refmask = False\<rparr>"

definition deallocate :: "GridHierarchy \<Rightarrow> GridHierarchy" where
  "deallocate gh =
     gh\<lparr>m_pgrids := [], m_xoffabs := [], m_yoffabs := [], m_zoffabs := [],
        m_levelmin := 0, m_ref_masks := []\<rparr>"

text \<open>
  \<open>create_base_hierarchy(lmax)\<close>. The first loop carries the side length \<open>n\<close>
  (\<open>n *= 2\<close> after each level); the second loop appends one mask per level.
\<close>

definition push_base_level :: "(int \<Rightarrow> real) \<Rightarrow> nat \<Rightarrow> nat \<times> GridHierarchy \<Rightarrow> nat \<times> GridHierarchy" where
  "push_base_level uninit i s =
     (case s of (n, gh) \<Rightarrow>
        (n * 2,
         gh\<lparr>m_pgrids := m_pgrids gh @ [zero_bnd (MeshvarBnd_new (h_nbnd gh) n n n 0 0 0 uninit)],
            m_xoffabs := m_xoffabs gh @ [0],
            m_yoffabs := m_yoffabs gh @ [0],
            m_zoffabs := m_zoffabs gh @ [0]\<rparr>))"

definition push_base_mask :: "nat \<Rightarrow> nat \<Rightarrow> GridHierarchy \<Rightarrow> GridHierarchy" where
  "push_base_mask lmax i gh =
     gh\<lparr>m_ref_masks := m_ref_masks gh @
        [refinement_mask_new (size_h gh i 0) (size_h gh i 1) (size_h gh i 2)
           (if i \<noteq> lmax then 1 else 0)]\<rparr>"

definition create_base_hierarchy :: "(int \<Rightarrow> real) \<Rightarrow> nat \<Rightarrow> GridHierarchy \<Rightarrow> GridHierarchy" where
  "create_base_hierarchy uninit lmax gh =
     (let gh1 = snd (fold (push_base_level uninit) [0..<Suc lmax] (1, deallocate gh));
          gh2 = gh1\<lparr>m_levelmin := lmax\<rparr>
      in fold (push_base_mask lmax) [0..<Suc lmax] gh2)"

text \<open>
  \<open>add_patch(xoff, yoff, zoff, nx, ny, nz)\<close>, all arguments \<open>unsigned\<close>. The sum
  \<open>m_xoffabs.back() + xoff\<close> mixes \<open>int\<close> and \<open>unsigned\<close> and is computed modulo
  \<open>2 ^ 32\<close>; \<open>back()\<close> of an empty vector is undefined in C++ and \<open>last []\<close> is
  unspecified here.
\<close>

definition add_patch ::
  "(int \<Rightarrow> real) \<Rightarrow> 32 word \<Rightarrow> 32 word \<Rightarrow> 32 word \<Rightarrow> 32 word \<Rightarrow> 32 word \<Rightarrow> 32 word
     \<Rightarrow> GridHierarchy \<Rightarrow> GridHierarchy" where
  "add_patch uninit xoff yoff zoff nx ny nz gh =
     gh\<lparr>m_pgrids := m_pgrids gh @
          [zero_bnd (MeshvarBnd_new (h_nbnd gh) (unat nx) (unat ny) (unat nz) xoff yoff zoff uninit)],
        m_xoffabs := m_xoffabs gh @ [2 * (last (m_xoffabs gh) + xoff)],
        m_yoffabs := m_yoffabs gh @ [2 * (last (m_yoffabs gh) + yoff)],
        m_zoffabs := m_zoffabs gh @ [2 * (last (m_zoffabs gh) + zoff)],
        m_ref_masks := m_ref_masks gh @ [refinement_mask_new (unat nx) (unat ny) (unat nz) 0]\<rparr>"


section \<open>Loops over cells\<close>

text \<open>
  The cells visited by \<open>for i < nx: for j < ny: for k < nz\<close>, in loop order. An
  \<open>unsigned\<close> or \<open>size_t\<close> value passed where the callee takes an \<open>int\<close> is read back
  from its low 32 bits (\<open>u2i\<close>).
\<close>

definition idx3 :: "nat \<Rightarrow> nat \<Rightarrow> nat \<Rightarrow> (nat \<times> nat \<times> nat) list" where
  "idx3 nx ny nz = List.product [0..<nx] (List.product [0..<ny] [0..<nz])"

definition u2i :: "nat \<Rightarrow> int" where
  "u2i n = sint (word_of_nat n :: 32 word)"

section \<open>Cutting a patch (\<open>GridHierarchy::cut_patch\<close>)\<close>

text \<open>
  \<open>find_new_levelmin()\<close>: the last level whose three extents are \<open>1 << i\<close> becomes
  \<open>m_levelmin\<close> (levels stay far below 31, so \<open>1 << i\<close> is \<open>2 ^ i\<close>).
\<close>

definition find_new_levelmin :: "GridHierarchy \<Rightarrow> GridHierarchy" where
  "find_new_levelmin gh =
     fold (\<lambda>i h.
        if size_bnd (m_pgrids h ! i) 0 = 2 ^ i \<and> size_bnd (m_pgrids h ! i) 1 = 2 ^ i
           \<and> size_bnd (m_pgrids h ! i) 2 = 2 ^ i
        then h\<lparr>m_levelmin := i\<rparr> else h)
       [0..<Suc (levelmax gh)] gh"

text \<open>
  The copy loop: \<open>(*mnew)(i,j,k) = (*m_pgrids[ilevel])(i+dx, j+dy, k+dz)\<close>, then
  \<open>finesum += (*mnew)(i,j,k)\<close> and \<open>finecount++\<close>. The sums \<open>i+dx\<close> are \<open>unsigned\<close>.
\<close>

definition copy_cell ::
  "MeshvarBnd \<Rightarrow> 32 word \<Rightarrow> 32 word \<Rightarrow> 32 word \<Rightarrow> nat \<times> nat \<times> nat
     \<Rightarrow> MeshvarBnd \<times> real \<times> nat \<Rightarrow> MeshvarBnd \<times> real \<times> nat" where
  "copy_cell old dx dy dz c s =
     (case c of (i, j, k) \<Rightarrow> case s of (mnew, finesum, finecount) \<Rightarrow>
        let mnew' = bnd_set mnew (u2i i) (u2i j) (u2i k)
                      (bnd_get old (sint (word_of_nat i + dx)) (sint (word_of_nat j + dy))
                         (sint (word_of_nat k + dz)))
        in (mnew', finesum + bnd_get mnew' (u2i i) (u2i j) (u2i k), Suc finecount))"

text \<open>
  The coarse sum: \<open>coarsesum += (*m_pgrids[ilevel-1])(i+ox, j+oy, k+oz)\<close> and
  \<open>coarsecount++\<close> over \<open>i < nx/2, j < ny/2, k < nz/2\<close>.
\<close>

definition coarse_cell ::
  "MeshvarBnd \<Rightarrow> 32 word \<Rightarrow> 32 word \<Rightarrow> 32 word \<Rightarrow> nat \<times> nat \<times> nat \<Rightarrow> real \<times> nat \<Rightarrow> real \<times> nat" where
  "coarse_cell coarse ox oy oz c s =
     (case c of (i, j, k) \<Rightarrow> case s of (coarsesum, coarsecount) \<Rightarrow>
        (coarsesum + bnd_get coarse (sint (word_of_nat i + ox)) (sint (word_of_nat j + oy))
                       (sint (word_of_nat k + oz)),
         Suc coarsecount))"

text \<open>
  Cell values are real numbers: the sums, quotients and differences below are exact
  where the code rounds to \<open>real_t\<close>. One effect of the floating-point arithmetic is
  kept: a sum divided by a zero count (\<open>coarsesum /= (double)coarsecount\<close> after a
  loop that never ran) is \<open>0.0 / 0\<close>, not a number. \<open>None\<close> stands for that quotient, and
  it makes the difference of the two means not a number as well.
\<close>

definition fdiv :: "real \<Rightarrow> nat \<Rightarrow> real option" where
  "fdiv s n = (if n = 0 then None else Some (s / real n))"

definition fsub :: "real option \<Rightarrow> real option \<Rightarrow> real option" where
  "fsub a b = (case a of None \<Rightarrow> None | Some x \<Rightarrow> (case b of None \<Rightarrow> None | Some y \<Rightarrow> Some (x - y)))"

text \<open>
  \<open>(*mnew)(i,j,k) += corr\<close> and \<open>(*m_pgrids[ilevel-1])(i+ox, j+oy, k+oz) -= corr\<close>. When
  \<open>corr\<close> is not a number the cell becomes NaN, which a real-valued cell cannot hold:
  \<open>nan\<close> stands for the value stored then. Nothing in \<open>cut_patch\<close> computes with the
  cells afterwards.
\<close>

definition shift_fine_cell :: "real \<Rightarrow> real option \<Rightarrow> nat \<times> nat \<times> nat \<Rightarrow> MeshvarBnd \<Rightarrow> MeshvarBnd" where
  "shift_fine_cell nan corr c g =
     (case c of (i, j, k) \<Rightarrow>
        bnd_set g (u2i i) (u2i j) (u2i k)
          (case corr of None \<Rightarrow> nan | Some d \<Rightarrow> bnd_get g (u2i i) (u2i j) (u2i k) + d))"

definition shift_coarse_cell ::
  "real \<Rightarrow> real option \<Rightarrow> 32 word \<Rightarrow> 32 word \<Rightarrow> 32 word \<Rightarrow> nat \<times> nat \<times> nat \<Rightarrow> MeshvarBnd \<Rightarrow> MeshvarBnd" where
  "shift_coarse_cell nan corr ox oy oz c g =
     (case c of (i, j, k) \<Rightarrow>
        let ix = sint (word_of_nat i + ox); iy = sint (word_of_nat j + oy);
            iz = sint (word_of_nat k + oz)
        in bnd_set g ix iy iz (case corr of None \<Rightarrow> nan | Some d \<Rightarrow> bnd_get g ix iy iz - d))"

text \<open>
  The mean correction at the end of \<open>cut_patch\<close>, for both values of
  \<open>enforce_coarse_mean\<close>; \<open>finesum\<close> and \<open>finecount\<close> come from the copy loop. Both
  branches do nothing unless \<open>ilevel > levelmin()\<close>. Neither count is checked before
  the division.
\<close>

definition enforce_mean ::
  "real \<Rightarrow> bool \<Rightarrow> nat \<Rightarrow> 32 word \<Rightarrow> 32 word \<Rightarrow> 32 word \<Rightarrow> real \<Rightarrow> nat \<Rightarrow> GridHierarchy \<Rightarrow> GridHierarchy" where
  "enforce_mean nan enforce_coarse_mean ilevel nx ny nz finesum finecount gh =
     (if ilevel > levelmin gh then
        let ox = offset_bnd (m_pgrids gh ! ilevel) 0;
            oy = offset_bnd (m_pgrids gh ! ilevel) 1;
            oz = offset_bnd (m_pgrids gh ! ilevel) 2;
            half = idx3 (unat nx div 2) (unat ny div 2) (unat nz div 2);
            cs = fold (coarse_cell (m_pgrids gh ! (ilevel - 1)) ox oy oz) half (0, 0);
            coarsemean = fdiv (fst cs) (snd cs);
            finemean = fdiv finesum finecount
        in if enforce_coarse_mean
           then gh\<lparr>m_pgrids := (m_pgrids gh)[ilevel :=
                    fold (shift_fine_cell nan (fsub coarsemean finemean))
                      (idx3 (unat nx) (unat ny) (unat nz)) (m_pgrids gh ! ilevel)]\<rparr>
           else gh\<lparr>m_pgrids := (m_pgrids gh)[ilevel - 1 :=
                    fold (shift_coarse_cell nan (fsub coarsemean finemean) ox oy oz) half
                      (m_pgrids gh ! (ilevel - 1))]\<rparr>
      else gh)"

text \<open>
  \<open>cut_patch(ilevel, xoff, yoff, zoff, nx, ny, nz, enforce_coarse_mean)\<close>. The shifts
  \<open>dx, dy, dz\<close> are \<open>unsigned\<close>: differences modulo \<open>2 ^ 32\<close>, halved by unsigned
  division. The vectors are indexed without a range check, so \<open>ilevel\<close> is meant to be
  an existing level. \<open>uninit\<close> is the content of the freshly allocated patch, \<open>nan\<close> what
  a cell holds after a correction that is not a number.
\<close>

definition cut_patch ::
  "(int \<Rightarrow> real) \<Rightarrow> real \<Rightarrow> nat \<Rightarrow> 32 word \<Rightarrow> 32 word \<Rightarrow> 32 word \<Rightarrow> 32 word \<Rightarrow> 32 word \<Rightarrow> 32 word
     \<Rightarrow> bool \<Rightarrow> GridHierarchy \<Rightarrow> error + GridHierarchy" where
  "cut_patch uninit nan ilevel xoff yoff zoff nx ny nz enforce_coarse_mean gh =
     (let dx = xoff - m_xoffabs gh ! ilevel;
          dy = yoff - m_yoffabs gh ! ilevel;
          dz = zoff - m_zoffabs gh ! ilevel
      in if \<not> (dx mod 2 = 0 \<and> dy mod 2 = 0 \<and> dz mod 2 = 0) then Inl AssertionFailure
         else
           let old = m_pgrids gh ! ilevel;
               dxtop = offset_bnd old 0 + dx div 2;
               dytop = offset_bnd old 1 + dy div 2;
               dztop = offset_bnd old 2 + dz div 2;
               mnew0 = MeshvarBnd_new (h_nbnd gh) (unat nx) (unat ny) (unat nz)
                         dxtop dytop dztop uninit;
               cp = fold (copy_cell old dx dy dz) (idx3 (unat nx) (unat ny) (unat nz))
                      (mnew0, 0, 0);
               gh1 = gh\<lparr>m_pgrids := (m_pgrids gh)[ilevel := fst cp],
                        m_xoffabs := (m_xoffabs gh)[ilevel := m_xoffabs gh ! ilevel + dx],
                        m_yoffabs := (m_yoffabs gh)[ilevel := m_yoffabs gh ! ilevel + dy],
                        m_zoffabs := (m_zoffabs gh)[ilevel := m_zoffabs gh ! ilevel + dz]\<rparr>;
               gh2 = (if ilevel < levelmax gh1
                      then gh1\<lparr>m_pgrids := (m_pgrids gh1)[Suc ilevel :=
                             (m_pgrids gh1 ! Suc ilevel)
                               \<lparr>m_offx := m_offx (m_pgrids gh1 ! Suc ilevel) - dx,
                                m_offy := m_offy (m_pgrids gh1 ! Suc ilevel) - dy,
                                m_offz := m_offz (m_pgrids gh1 ! Suc ilevel) - dz\<rparr>]\<rparr>
                      else gh1)
           in Inr (find_new_levelmin
                     (enforce_mean nan enforce_coarse_mean ilevel nx ny nz
                        (fst (snd cp)) (snd (snd cp)) gh2)))"


section \<open>Comparing, assigning and combining hierarchies\<close>

text \<open>A loop whose body may throw: the first error ends it.\<close>

fun fold_err :: "('a \<Rightarrow> 's \<Rightarrow> error + 's) \<Rightarrow> 'a list \<Rightarrow> 's \<Rightarrow> error + 's" where
  "fold_err f [] s = Inr s"
| "fold_err f (x # xs) s = (case f x s of Inl e \<Rightarrow> Inl e | Inr s' \<Rightarrow> fold_err f xs s')"

text \<open>
  \<open>is_consistent(gh)\<close>: equal \<open>levelmax()\<close>, equal \<open>levelmin()\<close>, and equal extents and
  relative offsets on the levels \<open>levelmin() .. levelmax()\<close>.
\<close>

definition is_consistent :: "GridHierarchy \<Rightarrow> GridHierarchy \<Rightarrow> bool" where
  "is_consistent this gh =
     (if levelmax gh \<noteq> levelmax this then False
      else if levelmin gh \<noteq> levelmin this then False
      else list_all (\<lambda>i. list_all (\<lambda>j.
              size_h this i j = size_h gh i j \<and> offset_h this i j = offset_h gh i j) [0, 1, 2])
             [levelmin this..<Suc (levelmax this)])"

text \<open>
  The copy constructor of a mesh allocates a block of the same extents and copies the
  allocated cells; \<open>MeshvarBnd::operator=\<close> reallocates only when the allocated extents
  differ and copies the cells, leaving offsets and ghost width of the target as they
  are.
\<close>

definition copy_bnd :: "(int \<Rightarrow> real) \<Rightarrow> MeshvarBnd \<Rightarrow> MeshvarBnd" where
  "copy_bnd uninit m =
     m\<lparr>m_pdata := fold (\<lambda>i d. d(int i := m_pdata m (int i))) [0..<m_nx m * m_ny m * m_nz m] uninit\<rparr>"

definition assign_bnd :: "(int \<Rightarrow> real) \<Rightarrow> MeshvarBnd \<Rightarrow> MeshvarBnd \<Rightarrow> MeshvarBnd" where
  "assign_bnd uninit this m =
     (let t = (if m_nx this \<noteq> m_nx m \<or> m_ny this \<noteq> m_ny m \<or> m_nz this \<noteq> m_nz m
               then this\<lparr>m_nx := m_nx m, m_ny := m_ny m, m_nz := m_nz m, m_pdata := uninit\<rparr>
               else this)
      in t\<lparr>m_pdata := fold (\<lambda>i d. d(int i := m_pdata m (int i)))
                          [0..<m_nx t * m_ny t * m_nz t] (m_pdata t)\<rparr>)"

text \<open>
  The element-wise operators of a mesh (\<open>*=\<close>, \<open>/=\<close>, \<open>+=\<close>, \<open>-=\<close> with a mesh operand)
  differ in their name and in the arithmetic operation only.
\<close>

definition elementwise_bnd ::
  "string \<Rightarrow> (real \<Rightarrow> real \<Rightarrow> real) \<Rightarrow> MeshvarBnd \<Rightarrow> MeshvarBnd \<Rightarrow> error + MeshvarBnd" where
  "elementwise_bnd name f this v =
     (if m_nx v * m_ny v * m_nz v \<noteq> m_nx this * m_ny this * m_nz this
      then Inl (RuntimeError (''Meshvar::operator'' @ name @ '' : attempt to operate on incompatible data''))
      else Inr (this\<lparr>m_pdata := fold (\<lambda>i d. d(int i := f (d (int i)) (m_pdata v (int i))))
                                     [0..<m_nx this * m_ny this * m_nz this] (m_pdata this)\<rparr>))"

text \<open>The same four operators of a hierarchy, with a hierarchy operand.\<close>

definition elementwise_h ::
  "string \<Rightarrow> (real \<Rightarrow> real \<Rightarrow> real) \<Rightarrow> GridHierarchy \<Rightarrow> GridHierarchy \<Rightarrow> error + GridHierarchy" where
  "elementwise_h name f this gh =
     (if \<not> is_consistent this gh
      then Inl (RuntimeError (''GridHierarchy::operator'' @ name @ '' : attempt to operate on incompatible data''))
      else fold_err (\<lambda>i t.
             case get_grid gh i of Inl e \<Rightarrow> Inl e
             | Inr g \<Rightarrow> (case elementwise_bnd name f (m_pgrids t ! i) g of Inl e \<Rightarrow> Inl e
                         | Inr r \<Rightarrow> Inr (t\<lparr>m_pgrids := (m_pgrids t)[i := r]\<rparr>)))
             [0..<length (m_pgrids this)] this)"

definition times_assign :: "GridHierarchy \<Rightarrow> GridHierarchy \<Rightarrow> error + GridHierarchy" where
  "times_assign = elementwise_h ''*='' (\<lambda>a b. a * b)"

definition divide_assign :: "GridHierarchy \<Rightarrow> GridHierarchy \<Rightarrow> error + GridHierarchy" where
  "divide_assign = elementwise_h ''/='' (\<lambda>a b. a / b)"

definition plus_assign :: "GridHierarchy \<Rightarrow> GridHierarchy \<Rightarrow> error + GridHierarchy" where
  "plus_assign = elementwise_h ''+='' (\<lambda>a b. a + b)"

definition minus_assign :: "GridHierarchy \<Rightarrow> GridHierarchy \<Rightarrow> error + GridHierarchy" where
  "minus_assign = elementwise_h ''-='' (\<lambda>a b. a - b)"

text \<open>
  \<open>GridHierarchy::operator=\<close>. The masks of the source are appended to the masks the
  target already has. On a mismatch the grids are replaced by copies, fetched with
  \<open>gh.get_grid(i)\<close> for \<open>i = 0 .. gh.levelmax()\<close>; otherwise each grid is assigned.
\<close>

definition copy_grids :: "(int \<Rightarrow> real) \<Rightarrow> GridHierarchy \<Rightarrow> error + MeshvarBnd list" where
  "copy_grids uninit gh =
     fold_err (\<lambda>i gs. case get_grid gh i of Inl e \<Rightarrow> Inl e
                       | Inr g \<Rightarrow> Inr (gs @ [copy_bnd uninit g]))
       [0..<Suc (levelmax gh)] []"

definition assign :: "(int \<Rightarrow> real) \<Rightarrow> GridHierarchy \<Rightarrow> GridHierarchy \<Rightarrow> error + GridHierarchy" where
  "assign uninit this gh =
     (let t1 = this\<lparr>bhave_refmask := bhave_refmask gh\<rparr>;
          t2 = (if bhave_refmask t1
                then fold (\<lambda>i t. t\<lparr>m_ref_masks := m_ref_masks t @ [m_ref_masks gh ! i]\<rparr>)
                       [0..<Suc (levelmax gh)] t1
                else t1)
      in if \<not> is_consistent t2 gh
         then (case copy_grids uninit gh of Inl e \<Rightarrow> Inl e
               | Inr gs \<Rightarrow> Inr (t2\<lparr>m_pgrids := gs, m_levelmin := levelmin gh,
                                   h_nbnd := h_nbnd gh, m_xoffabs := m_xoffabs gh,
                                   m_yoffabs := m_yoffabs gh, m_zoffabs := m_zoffabs gh\<rparr>))
         else fold_err (\<lambda>i t.
                case get_grid gh i of Inl e \<Rightarrow> Inl e
                | Inr g \<Rightarrow> Inr (t\<lparr>m_pgrids := (m_pgrids t)[i := assign_bnd uninit (m_pgrids t ! i) g]\<rparr>))
                [0..<length (m_pgrids t2)] t2)"

section \<open>Mean removal (\<open>normalize_density\<close>)\<close>

text \<open>
  Values are real numbers: the sums and the division are exact. The outer loop counts
  an \<open>int\<close> up to \<open>(int)nx\<close>; the inner indices are \<open>size_t\<close> passed as \<open>int\<close>.
\<close>

definition sum_cell :: "MeshvarBnd \<Rightarrow> nat \<times> nat \<times> nat \<Rightarrow> real \<Rightarrow> real" where
  "sum_cell g c s = (case c of (ix, iy, iz) \<Rightarrow> s + bnd_get g (int ix) (u2i iy) (u2i iz))"

definition subtract_cell :: "real \<Rightarrow> nat \<times> nat \<times> nat \<Rightarrow> MeshvarBnd \<Rightarrow> MeshvarBnd" where
  "subtract_cell s c g =
     (case c of (ix, iy, iz) \<Rightarrow>
        bnd_set g (int ix) (u2i iy) (u2i iz) (bnd_get g (int ix) (u2i iy) (u2i iz) - s))"

definition cells_of :: "MeshvarBnd \<Rightarrow> (nat \<times> nat \<times> nat) list" where
  "cells_of g = idx3 (nat (u2i (size_bnd g 0))) (size_bnd g 1) (size_bnd g 2)"

definition subtract_level :: "real \<Rightarrow> nat \<Rightarrow> GridHierarchy \<Rightarrow> error + GridHierarchy" where
  "subtract_level s i delta =
     (case get_grid delta i of Inl e \<Rightarrow> Inl e
      | Inr g \<Rightarrow> Inr (delta\<lparr>m_pgrids := (m_pgrids delta)[i := fold (subtract_cell s) (cells_of g) g]\<rparr>))"

definition normalize_density :: "GridHierarchy \<Rightarrow> error + GridHierarchy" where
  "normalize_density delta =
     (let lmin = levelmin delta; lmax = levelmax delta
      in case get_grid delta lmin of Inl e \<Rightarrow> Inl e
         | Inr g \<Rightarrow>
             let nx = size_bnd g 0; ny = size_bnd g 1; nz = size_bnd g 2;
                 s = fold (sum_cell g) (cells_of g) 0 / real (nx * ny * nz)
             in fold_err (subtract_level s) [lmin..<Suc lmax] delta)"


section \<open>Building the refinement mask (\<open>add_refinement_mask\<close>)\<close>

text \<open>
  \<open>refinement_mask::operator()(i, j, k)\<close> reads and writes \<open>mask_[(i * ny_ + j) * nz_ + k]\<close>;
  \<open>init\<close> sets the extents and refills the vector.
\<close>

definition mask_index :: "refinement_mask \<Rightarrow> nat \<Rightarrow> nat \<Rightarrow> nat \<Rightarrow> nat" where
  "mask_index m i j k = (i * rm_ny m + j) * rm_nz m + k"

definition mask_get :: "refinement_mask \<Rightarrow> nat \<Rightarrow> nat \<Rightarrow> nat \<Rightarrow> int" where
  "mask_get m i j k = rm_mask m ! mask_index m i j k"

definition mask_set :: "refinement_mask \<Rightarrow> nat \<Rightarrow> nat \<Rightarrow> nat \<Rightarrow> int \<Rightarrow> refinement_mask" where
  "mask_set m i j k v = m\<lparr>rm_mask := (rm_mask m)[mask_index m i j k := v]\<rparr>"

definition mask_init :: "nat \<Rightarrow> nat \<Rightarrow> nat \<Rightarrow> int \<Rightarrow> refinement_mask \<Rightarrow> refinement_mask" where
  "mask_init nx ny nz v m =
     m\<lparr>rm_nx := nx, rm_ny := ny, rm_nz := nz, rm_mask := replicate (nx * ny * nz) v\<rparr>"

text \<open>The eight cells \<open>(i + a, j + b, k + c)\<close>, \<open>a, b, c \<in> {0, 1}\<close>, in the order of the source.\<close>

definition corners :: "(nat \<times> nat \<times> nat) list" where
  "corners = [(0,0,0), (0,0,1), (0,1,0), (0,1,1), (1,0,0), (1,0,1), (1,1,0), (1,1,1)]"

definition set8 :: "refinement_mask \<Rightarrow> nat \<Rightarrow> nat \<Rightarrow> nat \<Rightarrow> int \<Rightarrow> refinement_mask" where
  "set8 m i j k v = fold (\<lambda>c m'. case c of (a, b, d) \<Rightarrow> mask_set m' (i + a) (j + b) (k + d) v) corners m"

definition any8 :: "refinement_mask \<Rightarrow> nat \<Rightarrow> nat \<Rightarrow> nat \<Rightarrow> bool" where
  "any8 m i j k = fold (\<lambda>c f. case c of (a, b, d) \<Rightarrow> f \<or> mask_get m (i + a) (j + b) (k + d) > 0) corners False"

text \<open>The values \<open>0, 2, 4, \<dots>\<close> below \<open>n\<close> of a loop \<open>for (i = 0; i < n; i += 2)\<close>.\<close>

definition evens :: "nat \<Rightarrow> nat list" where
  "evens n = map (\<lambda>t. 2 * t) [0..<(n + 1) div 2]"

text \<open>
  The first pass on one level. The region generator is outside this code: \<open>q ilevel i j k\<close>
  stands for \<open>the_region_generator->query_point(xq, ilevel)\<close> at the position \<open>xq\<close> the
  source computes for the cell \<open>(i, j, k)\<close> of the level.
\<close>

definition flag_block ::
  "(nat \<Rightarrow> nat \<Rightarrow> nat \<Rightarrow> nat \<Rightarrow> bool) \<Rightarrow> nat \<Rightarrow> nat \<Rightarrow> nat \<times> nat \<times> nat \<Rightarrow> refinement_mask \<Rightarrow> refinement_mask" where
  "flag_block q lmin ilevel c m =
     (case c of (i, j, k) \<Rightarrow>
        set8 m i j k (if q ilevel i j k \<or> int ilevel = u2i lmin then 1 else - 1))"

definition flag_level ::
  "(nat \<Rightarrow> nat \<Rightarrow> nat \<Rightarrow> nat \<Rightarrow> bool) \<Rightarrow> nat \<Rightarrow> GridHierarchy \<Rightarrow> GridHierarchy" where
  "flag_level q ilevel gh =
     (let nx = size_h gh ilevel 0; ny = size_h gh ilevel 1; nz = size_h gh ilevel 2;
          m0 = mask_init nx ny nz 0 (m_ref_masks gh ! ilevel)
      in gh\<lparr>m_ref_masks := (m_ref_masks gh)[ilevel :=
            fold (flag_block q (levelmin gh) ilevel)
              (List.product (evens nx) (List.product (evens ny) (evens nz))) m0]\<rparr>)"

text \<open>
  The second pass on one cell of one level: the first child is
  \<open>ifine = 2 * (int)i - 2 * (int)offset(ilevel + 1, d)\<close>; only its position is compared
  with the extents of the finer level.
\<close>

definition refine_cell :: "nat \<Rightarrow> nat \<times> nat \<times> nat \<Rightarrow> GridHierarchy \<Rightarrow> GridHierarchy" where
  "refine_cell ilevel c gh =
     (case c of (i, j, k) \<Rightarrow>
        let if0 = 2 * u2i i - 2 * sint (offset_h gh (Suc ilevel) 0);
            if1 = 2 * u2i j - 2 * sint (offset_h gh (Suc ilevel) 1);
            if2 = 2 * u2i k - 2 * sint (offset_h gh (Suc ilevel) 2)
        in if if0 \<ge> 0 \<and> if0 < u2i (size_h gh (Suc ilevel) 0) \<and>
              if1 \<ge> 0 \<and> if1 < u2i (size_h gh (Suc ilevel) 1) \<and>
              if2 \<ge> 0 \<and> if2 < u2i (size_h gh (Suc ilevel) 2)
           then
             if any8 (m_ref_masks gh ! Suc ilevel) (nat if0) (nat if1) (nat if2)
             then
               let ms1 = (m_ref_masks gh)[ilevel := mask_set (m_ref_masks gh ! ilevel) i j k 2]
               in gh\<lparr>m_ref_masks := ms1[Suc ilevel := set8 (ms1 ! Suc ilevel) (nat if0) (nat if1) (nat if2) 1]\<rparr>
             else gh
           else gh)"

definition refine_level :: "nat \<Rightarrow> GridHierarchy \<Rightarrow> GridHierarchy" where
  "refine_level ilevel gh =
     fold (refine_cell ilevel) (idx3 (size_h gh ilevel 0) (size_h gh ilevel 1) (size_h gh ilevel 2)) gh"

text \<open>
  \<open>add_refinement_mask\<close>: the first loop runs an \<open>int\<close> from \<open>(int)levelmax()\<close> down to
  \<open>(int)levelmin()\<close>, the second from \<open>(int)levelmin()\<close> up to \<open>(int)levelmax() - 1\<close>.
\<close>

definition add_refinement_mask ::
  "(nat \<Rightarrow> nat \<Rightarrow> nat \<Rightarrow> nat \<Rightarrow> bool) \<Rightarrow> GridHierarchy \<Rightarrow> GridHierarchy" where
  "add_refinement_mask q gh =
     (let gh0 = gh\<lparr>bhave_refmask := False\<rparr>
      in if m_levelmin gh0 \<noteq> levelmax gh0
         then
           let gh1 = fold (flag_level q)
                       (rev (map nat [u2i (levelmin gh0)..u2i (levelmax gh0)])) gh0;
               gh2 = gh1\<lparr>bhave_refmask := True\<rparr>
           in fold refine_level (map nat [u2i (levelmin gh2)..u2i (levelmax gh2) - 1]) gh2
         else gh0)"

section \<open>The resolved level geometry (\<open>refinement_hierarchy\<close>)\<close>

text \<open>
  Of the class, the integer bookkeeping: \<open>offsets_\<close>, \<open>absoffsets_\<close> and \<open>len_\<close> (vectors
  of \<open>index3_t\<close>, one entry per level) and the two level bounds. \<open>index_t\<close> has 64 bits
  and holds cell indices, so its arithmetic is exact. The floating-point origin and
  extent vectors take no part in it and are left out.
\<close>

type_synonym index3_t = "int \<times> int \<times> int"

record refinement_hierarchy =
  rh_levelmin :: nat
  rh_levelmax :: nat
  rh_offsets :: "index3_t list"
  rh_absoffsets :: "index3_t list"
  rh_len :: "index3_t list"

text \<open>Division of C++ integers truncates towards zero; a value stored in an \<open>int\<close> keeps its low 32 bits.\<close>

definition cdiv :: "int \<Rightarrow> int \<Rightarrow> int" where
  "cdiv a b = sgn a * sgn b * (\<bar>a\<bar> div \<bar>b\<bar>)"

definition c_int :: "int \<Rightarrow> int" where
  "c_int x = sint (word_of_int x :: 32 word)"

definition cube :: "int \<Rightarrow> index3_t" where
  "cube n = (n, n, n)"

text \<open>
  The two sweeps that end the constructor:
  \<open>offsets_[l][d] = absoffsets_[l][d] / 2 - absoffsets_[l-1][d]\<close> from the finest level
  down, then \<open>absoffsets_[l][d] = 2 * absoffsets_[l-1][d] + 2 * offsets_[l][d]\<close> from the
  coarsest refined level up.
\<close>

definition relative_step :: "index3_t list \<Rightarrow> nat \<Rightarrow> index3_t list \<Rightarrow> index3_t list" where
  "relative_step ab ilevel off =
     (case ab ! ilevel of (ax, ay, az) \<Rightarrow> case ab ! (ilevel - 1) of (px, py, pz) \<Rightarrow>
        off[ilevel := (cdiv ax 2 - px, cdiv ay 2 - py, cdiv az 2 - pz)])"

definition forward_step :: "index3_t list \<Rightarrow> nat \<Rightarrow> index3_t list \<Rightarrow> index3_t list" where
  "forward_step off ilevel ab =
     (case ab ! (ilevel - 1) of (px, py, pz) \<Rightarrow> case off ! ilevel of (ox, oy, oz) \<Rightarrow>
        ab[ilevel := (2 * px + 2 * ox, 2 * py + 2 * oy, 2 * pz + 2 * oz)])"

definition too_large :: "index3_t list \<Rightarrow> nat \<Rightarrow> bool" where
  "too_large lens ilevel =
     (case lens ! ilevel of (lx, ly, lz) \<Rightarrow>
        lx > 2 ^ (ilevel - 1) \<or> ly > 2 ^ (ilevel - 1) \<or> lz > 2 ^ (ilevel - 1))"

text \<open>
  The constructor, from the point where the vectors are allocated. The placement of
  the refined levels is computed in floating point from the region generator's box;
  \<open>pos l\<close> and \<open>ext l\<close> stand for what it stores in \<open>absoffsets_[l]\<close> and \<open>len_[l]\<close> for
  \<open>levelmin < l \<le> levelmax\<close> (the only entries it writes). A run that fails during the
  placement never reaches the sweeps and is not a value of this function.
\<close>

definition refinement_hierarchy_new ::
  "nat \<Rightarrow> nat \<Rightarrow> (nat \<Rightarrow> index3_t) \<Rightarrow> (nat \<Rightarrow> index3_t) \<Rightarrow> error + refinement_hierarchy" where
  "refinement_hierarchy_new lmin lmax pos ext =
     (let off0 = replicate (lmax + 1) (0, 0, 0);
          abs0 = replicate (lmax + 1) (0, 0, 0);
          len0 = fold (\<lambda>l lens. lens[l := cube (2 ^ l)]) [0..<Suc lmin]
                   (replicate (lmax + 1) (0, 0, 0))
      in if lmax = lmin
         then Inr \<lparr>rh_levelmin = lmin, rh_levelmax = lmax, rh_offsets = off0,
                   rh_absoffsets = abs0, rh_len = len0\<rparr>
         else
           let refined = rev [Suc lmin..<Suc lmax];
               abs1 = fold (\<lambda>l ab. ab[l := pos l]) refined abs0;
               len1 = fold (\<lambda>l lens. lens[l := ext l]) refined len0;
               off2 = fold (relative_step abs1) refined off0;
               abs2 = fold (forward_step off2) [Suc lmin..<Suc lmax] abs1
           in if list_ex (too_large len1) [Suc lmin..<Suc lmax]
              then Inl (RuntimeError ''Fatal: Subgrid larger than half boxin zoom.'')
              else Inr \<lparr>rh_levelmin = lmin, rh_levelmax = lmax, rh_offsets = off2,
                        rh_absoffsets = abs2, rh_len = len1\<rparr>)"

text \<open>\<open>refinement_hierarchy::find_new_levelmin\<close> and \<open>adjust_level\<close>.\<close>

definition rh_find_new_levelmin :: "refinement_hierarchy \<Rightarrow> refinement_hierarchy" where
  "rh_find_new_levelmin rh =
     fold (\<lambda>i r. if rh_absoffsets r ! i = (0, 0, 0) \<and> rh_len r ! i = cube (2 ^ i)
                  then r\<lparr>rh_levelmin := i\<rparr> else r)
       [0..<Suc (rh_levelmax rh)] rh"

definition adjust_level ::
  "nat \<Rightarrow> int \<Rightarrow> int \<Rightarrow> int \<Rightarrow> int \<Rightarrow> int \<Rightarrow> int \<Rightarrow> refinement_hierarchy \<Rightarrow> refinement_hierarchy" where
  "adjust_level ilevel nx ny nz oax oay oaz rh =
     (case rh_absoffsets rh ! ilevel of (ax, ay, az) \<Rightarrow>
      case rh_offsets rh ! ilevel of (ox, oy, oz) \<Rightarrow>
        let dx = c_int (ax - oax); dy = c_int (ay - oay); dz = c_int (az - oaz);
            off1 = (rh_offsets rh)[ilevel := (ox - cdiv dx 2, oy - cdiv dy 2, oz - cdiv dz 2)];
            rh1 = rh\<lparr>rh_offsets := off1,
                     rh_absoffsets := (rh_absoffsets rh)[ilevel := (oax, oay, oaz)],
                     rh_len := (rh_len rh)[ilevel := (nx, ny, nz)]\<rparr>;
            rh2 = (if ilevel < rh_levelmax rh1
                   then (case rh_offsets rh1 ! Suc ilevel of (fx, fy, fz) \<Rightarrow>
                           rh1\<lparr>rh_offsets := (rh_offsets rh1)[Suc ilevel := (fx + dx, fy + dy, fz + dz)]\<rparr>)
                   else rh1)
        in rh_find_new_levelmin rh2)"

section \<open>The spectral coupler's preconditions\<close>

text \<open>
  \<open>fft_coarsen(v, V)\<close> and \<open>fft_interpolate(V, v, margin, from_basegrid)\<close> work on grids
  that report \<open>size(d)\<close>, \<open>offset(d)\<close> and \<open>margin(d)\<close>. Their transforms run in floating
  point inside the FFT library; \<open>restrict_op\<close> and \<open>splice_op\<close> stand for them, so that
  what remains is each routine's own control flow.
\<close>

record 'a density_grid =
  dg_size :: "nat \<times> nat \<times> nat"
  dg_offset :: "int \<times> int \<times> int"
  dg_margin :: "nat \<times> nat \<times> nat"
  dg_data :: 'a

definition fft_coarsen ::
  "('a density_grid \<Rightarrow> 'b density_grid \<Rightarrow> 'b) \<Rightarrow> 'a density_grid \<Rightarrow> 'b density_grid
     \<Rightarrow> error + 'b density_grid" where
  "fft_coarsen restrict_op v V = Inr (V\<lparr>dg_data := restrict_op v V\<rparr>)"

definition fft_interpolate ::
  "(int \<times> int \<times> int \<Rightarrow> nat \<times> nat \<times> nat \<Rightarrow> 'b density_grid \<Rightarrow> 'a density_grid \<Rightarrow> 'a)
     \<Rightarrow> 'b density_grid \<Rightarrow> 'a density_grid \<Rightarrow> int \<Rightarrow> bool \<Rightarrow> error + 'a density_grid" where
  "fft_interpolate splice_op V v margin from_basegrid =
     (case dg_offset v of (oxf, oyf, ozf) \<Rightarrow>
      case dg_size v of (nxf, nyf, nzf) \<Rightarrow>
      case dg_margin v of (mxf, myf, mzf) \<Rightarrow>
        let start = (if \<not> from_basegrid
                     then (oxf + int (mxf div 2), oyf + int (myf div 2), ozf + int (mzf div 2))
                     else (oxf - int (mxf div 2), oyf - int (myf div 2), ozf - int (mzf div 2)))
        in if \<not> (nxf mod 2 = 0 \<and> nyf mod 2 = 0 \<and> nzf mod 2 = 0) then Inl AssertionFailure
           else Inr (v\<lparr>dg_data := splice_op start (nxf div 2, nyf div 2, nzf div 2) V v\<rparr>))"

section \<open>Notions used in the statements\<close>

text \<open>
  A hierarchy is well formed when it holds at least one grid and fewer than \<open>2 ^ 32\<close>,
  and one absolute offset per grid and dimension.
\<close>

definition wf_hierarchy :: "GridHierarchy \<Rightarrow> bool" where
  "wf_hierarchy gh \<longleftrightarrow>
     m_pgrids gh \<noteq> [] \<and> length (m_pgrids gh) < 2 ^ 32 \<and>
     length (m_xoffabs gh) = length (m_pgrids gh) \<and>
     length (m_yoffabs gh) = length (m_pgrids gh) \<and>
     length (m_zoffabs gh) = length (m_pgrids gh)"

text \<open>
  The cross-level equation at level \<open>L\<close>: of a grid hierarchy, between the integers its
  \<open>int\<close> offsets hold, and of a resolved geometry, over \<open>index_t\<close>.
\<close>

definition offsets_agree :: "GridHierarchy \<Rightarrow> nat \<Rightarrow> bool" where
  "offsets_agree gh L \<longleftrightarrow>
     sint (offset_abs gh L 0) = 2 * sint (offset_abs gh (L - 1) 0) + 2 * sint (offset_h gh L 0) \<and>
     sint (offset_abs gh L 1) = 2 * sint (offset_abs gh (L - 1) 1) + 2 * sint (offset_h gh L 1) \<and>
     sint (offset_abs gh L 2) = 2 * sint (offset_abs gh (L - 1) 2) + 2 * sint (offset_h gh L 2)"

definition rh_offsets_agree :: "refinement_hierarchy \<Rightarrow> nat \<Rightarrow> bool" where
  "rh_offsets_agree rh L \<longleftrightarrow>
     (case rh_absoffsets rh ! L of (ax, ay, az) \<Rightarrow>
      case rh_absoffsets rh ! (L - 1) of (px, py, pz) \<Rightarrow>
      case rh_offsets rh ! L of (ox, oy, oz) \<Rightarrow>
        ax = 2 * px + 2 * ox \<and> ay = 2 * py + 2 * oy \<and> az = 2 * pz + 2 * oz)"

definition wf_geometry :: "refinement_hierarchy \<Rightarrow> bool" where
  "wf_geometry rh \<longleftrightarrow>
     length (rh_offsets rh) = Suc (rh_levelmax rh) \<and>
     length (rh_absoffsets rh) = Suc (rh_levelmax rh) \<and>
     length (rh_len rh) = Suc (rh_levelmax rh)"

text \<open>
  The shift \<open>adjust_level\<close> applies is the old minus the new absolute offset, stored in
  an \<open>int\<close>. The two conditions on it: it is even in every dimension, and it fits an
  \<open>int\<close> in every dimension.
\<close>

definition even_shift :: "refinement_hierarchy \<Rightarrow> nat \<Rightarrow> int \<Rightarrow> int \<Rightarrow> int \<Rightarrow> bool" where
  "even_shift rh ilevel oax oay oaz \<longleftrightarrow>
     (case rh_absoffsets rh ! ilevel of (ax, ay, az) \<Rightarrow>
        even (ax - oax) \<and> even (ay - oay) \<and> even (az - oaz))"

definition shift_fits_int :: "refinement_hierarchy \<Rightarrow> nat \<Rightarrow> int \<Rightarrow> int \<Rightarrow> int \<Rightarrow> bool" where
  "shift_fits_int rh ilevel oax oay oaz \<longleftrightarrow>
     (case rh_absoffsets rh ! ilevel of (ax, ay, az) \<Rightarrow>
        - (2 ^ 31) \<le> ax - oax \<and> ax - oax < 2 ^ 31 \<and>
        - (2 ^ 31) \<le> ay - oay \<and> ay - oay < 2 ^ 31 \<and>
        - (2 ^ 31) \<le> az - oaz \<and> az - oaz < 2 ^ 31)"

text \<open>\<open>g'\<close> is \<open>g\<close> with another content: same extents, offsets and ghost width.\<close>

definition data_only :: "MeshvarBnd \<Rightarrow> MeshvarBnd \<Rightarrow> bool" where
  "data_only g g' \<longleftrightarrow> g' = g\<lparr>m_pdata := m_pdata g'\<rparr>"

text \<open>The grid \<open>create_base_hierarchy\<close> allocates for level \<open>i\<close>.\<close>

definition base_grid :: "(int \<Rightarrow> real) \<Rightarrow> nat \<Rightarrow> nat \<Rightarrow> MeshvarBnd" where
  "base_grid u b i = zero_bnd (MeshvarBnd_new b (2 ^ i) (2 ^ i) (2 ^ i) 0 0 0 u)"

text \<open>
  The shift \<open>cut_patch\<close> applies is the requested absolute offset (an \<open>unsigned\<close>) minus
  the current one (an \<open>int\<close>); here it is even in every dimension.
\<close>

definition shift_even :: "GridHierarchy \<Rightarrow> nat \<Rightarrow> 32 word \<Rightarrow> 32 word \<Rightarrow> 32 word \<Rightarrow> bool" where
  "shift_even gh ilevel xoff yoff zoff \<longleftrightarrow>
     even (int (unat xoff) - sint (m_xoffabs gh ! ilevel)) \<and>
     even (int (unat yoff) - sint (m_yoffabs gh ! ilevel)) \<and>
     even (int (unat zoff) - sint (m_zoffabs gh ! ilevel))"

text \<open>
  One dimension of a shift of \<open>cut_patch\<close> from the absolute offset \<open>a\<close> to the requested
  one, for a level at the relative offset \<open>r\<close>, and a next finer level at \<open>f\<close> when
  there is one: the shift is not negative, and the new absolute offset, the new
  relative offset \<open>r + shift / 2\<close> and the finer level's new relative offset
  \<open>f - shift\<close> fit an \<open>int\<close>.
\<close>

definition fits1 :: "32 word \<Rightarrow> 32 word \<Rightarrow> 32 word \<Rightarrow> 32 word option \<Rightarrow> bool" where
  "fits1 req a r f \<longleftrightarrow>
     0 \<le> int (unat req) - sint a \<and> int (unat req) < 2 ^ 31 \<and>
     sint r + (int (unat req) - sint a) div 2 < 2 ^ 31 \<and>
     (case f of None \<Rightarrow> True | Some v \<Rightarrow> - (2 ^ 31) \<le> sint v - (int (unat req) - sint a))"

definition finer_offset :: "GridHierarchy \<Rightarrow> nat \<Rightarrow> nat \<Rightarrow> 32 word option" where
  "finer_offset gh ilevel d =
     (if Suc ilevel < length (m_pgrids gh) then Some (offset_h gh (Suc ilevel) d) else None)"

definition shift_fits :: "GridHierarchy \<Rightarrow> nat \<Rightarrow> 32 word \<Rightarrow> 32 word \<Rightarrow> 32 word \<Rightarrow> bool" where
  "shift_fits gh ilevel xoff yoff zoff \<longleftrightarrow>
     fits1 xoff (m_xoffabs gh ! ilevel) (offset_h gh ilevel 0) (finer_offset gh ilevel 0) \<and>
     fits1 yoff (m_yoffabs gh ! ilevel) (offset_h gh ilevel 1) (finer_offset gh ilevel 1) \<and>
     fits1 zoff (m_zoffabs gh ! ilevel) (offset_h gh ilevel 2) (finer_offset gh ilevel 2)"

section \<open>Example data\<close>

text \<open>
  A hierarchy with one ghost cell: three levels covering the domain (sides 1, 2, 4) and
  a patch of side 4 placed one cell into level 2; and the geometry of the same levels,
  as the constructor resolves it for a region of half the box width that starts at a
  quarter of it.
\<close>

definition ex_grid :: "nat \<Rightarrow> 32 word \<Rightarrow> (int \<Rightarrow> real) \<Rightarrow> MeshvarBnd" where
  "ex_grid n off content =
     \<lparr>m_nx = n + 2, m_ny = n + 2, m_nz = n + 2, m_offx = off, m_offy = off, m_offz = off,
      m_pdata = content, m_nbnd = 1\<rparr>"

definition ex_hierarchy :: GridHierarchy where
  "ex_hierarchy =
     \<lparr>h_nbnd = 1, m_levelmin = 2,
      m_pgrids = [ex_grid 1 0 (\<lambda>q. 0), ex_grid 2 0 (\<lambda>q. 0), ex_grid 4 0 (\<lambda>q. of_int q),
                  ex_grid 4 1 (\<lambda>q. of_int (q * q))],
      m_xoffabs = [0, 0, 0, 2], m_yoffabs = [0, 0, 0, 2], m_zoffabs = [0, 0, 0, 2],
      m_ref_masks = [refinement_mask_new 1 1 1 1, refinement_mask_new 2 2 2 1,
                     refinement_mask_new 4 4 4 0, refinement_mask_new 4 4 4 0],
      bhave_refmask = False\<rparr>"

definition ex_geometry :: refinement_hierarchy where
  "ex_geometry =
     \<lparr>rh_levelmin = 2, rh_levelmax = 3,
      rh_offsets = [(0, 0, 0), (0, 0, 0), (0, 0, 0), (1, 1, 1)],
      rh_absoffsets = [(0, 0, 0), (0, 0, 0), (0, 0, 0), (2, 2, 2)],
      rh_len = [(1, 1, 1), (2, 2, 2), (4, 4, 4), (4, 4, 4)]\<rparr>"

definition ex_fine :: "unit density_grid" where
  "ex_fine = \<lparr>dg_size = (3, 4, 4), dg_offset = (0, 0, 0), dg_margin = (0, 0, 0), dg_data = ()\<rparr>"

definition ex_coarse :: "unit density_grid" where
  "ex_coarse = \<lparr>dg_size = (2, 2, 2), dg_offset = (0, 0, 0), dg_margin = (0, 0, 0), dg_data = ()\<rparr>"

text \<open>
  The mean of the logical cells of a grid, and of the cells \<open>(i + ox, j + oy, k + oz)\<close>,
  \<open>i < nx\<close>, \<open>j < ny\<close>, \<open>k < nz\<close>. A grid is addressable when every logical index fits
  an \<open>int\<close>.
\<close>

definition box_mean :: "MeshvarBnd \<Rightarrow> int \<Rightarrow> int \<Rightarrow> int \<Rightarrow> nat \<Rightarrow> nat \<Rightarrow> nat \<Rightarrow> real" where
  "box_mean g ox oy oz nx ny nz =
     sum_list (map (\<lambda>c. case c of (i, j, k) \<Rightarrow> bnd_get g (int i + ox) (int j + oy) (int k + oz))
                 (idx3 nx ny nz)) / real (nx * ny * nz)"

definition level_mean :: "MeshvarBnd \<Rightarrow> real" where
  "level_mean g = box_mean g 0 0 0 (size_bnd g 0) (size_bnd g 1) (size_bnd g 2)"

definition addressable :: "MeshvarBnd \<Rightarrow> bool" where
  "addressable g \<longleftrightarrow> size_bnd g 0 < 2 ^ 31 \<and> size_bnd g 1 < 2 ^ 31 \<and> size_bnd g 2 < 2 ^ 31"

text \<open>
  A grid is a copy of another when extents, offsets and ghost width agree and the
  allocated cells hold the same values.
\<close>

definition is_copy :: "MeshvarBnd \<Rightarrow> MeshvarBnd \<Rightarrow> bool" where
  "is_copy g' g \<longleftrightarrow>
     m_nx g' = m_nx g \<and> m_ny g' = m_ny g \<and> m_nz g' = m_nz g \<and>
     m_offx g' = m_offx g \<and> m_offy g' = m_offy g \<and> m_offz g' = m_offz g \<and>
     m_nbnd g' = m_nbnd g \<and>
     (\<forall>i \<in> set [0..<m_nx g * m_ny g * m_nz g]. m_pdata g' (int i) = m_pdata g (int i))"

text \<open>
  In \<open>cut_patch\<close>: the shift of the level (requested minus current absolute offset,
  modulo \<open>2 ^ 32\<close>) and the relative offset the new patch gets. A box of extents
  \<open>(hx, hy, hz)\<close> starting at the cell \<open>(ox, oy, oz)\<close> is inside a grid when all of
  its cells are allocated cells of the grid, ghost cells included, and the grid's
  indices fit an \<open>int\<close>.
\<close>

definition cut_shift :: "GridHierarchy \<Rightarrow> nat \<Rightarrow> 32 word \<Rightarrow> 32 word \<Rightarrow> 32 word \<Rightarrow> 32 word \<times> 32 word \<times> 32 word" where
  "cut_shift gh ilevel xoff yoff zoff =
     (xoff - m_xoffabs gh ! ilevel, yoff - m_yoffabs gh ! ilevel, zoff - m_zoffabs gh ! ilevel)"

definition cut_offset :: "GridHierarchy \<Rightarrow> nat \<Rightarrow> 32 word \<Rightarrow> 32 word \<Rightarrow> 32 word \<Rightarrow> 32 word \<times> 32 word \<times> 32 word" where
  "cut_offset gh ilevel xoff yoff zoff =
     (case cut_shift gh ilevel xoff yoff zoff of (dx, dy, dz) \<Rightarrow>
        (m_offx (m_pgrids gh ! ilevel) + dx div 2, m_offy (m_pgrids gh ! ilevel) + dy div 2,
         m_offz (m_pgrids gh ! ilevel) + dz div 2))"

definition inside :: "MeshvarBnd \<Rightarrow> 32 word \<times> 32 word \<times> 32 word \<Rightarrow> nat \<Rightarrow> nat \<Rightarrow> nat \<Rightarrow> bool" where
  "inside g start hx hy hz \<longleftrightarrow>
     (case start of (ox, oy, oz) \<Rightarrow>
        m_nx g < 2 ^ 31 \<and> m_ny g < 2 ^ 31 \<and> m_nz g < 2 ^ 31 \<and>
        - int (m_nbnd g) \<le> sint ox \<and> sint ox + int hx + int (m_nbnd g) \<le> int (m_nx g) \<and>
        - int (m_nbnd g) \<le> sint oy \<and> sint oy + int hy + int (m_nbnd g) \<le> int (m_ny g) \<and>
        - int (m_nbnd g) \<le> sint oz \<and> sint oz + int hz + int (m_nbnd g) \<le> int (m_nz g))"

text \<open>The cell \<open>(i, j, k)\<close> of a box given by its starting cell, and the mean of the box.\<close>

definition cell_at :: "MeshvarBnd \<Rightarrow> 32 word \<times> 32 word \<times> 32 word \<Rightarrow> nat \<Rightarrow> nat \<Rightarrow> nat \<Rightarrow> real" where
  "cell_at g start i j k =
     (case start of (ox, oy, oz) \<Rightarrow> bnd_get g (int i + sint ox) (int j + sint oy) (int k + sint oz))"

definition mean_at :: "MeshvarBnd \<Rightarrow> 32 word \<times> 32 word \<times> 32 word \<Rightarrow> nat \<Rightarrow> nat \<Rightarrow> nat \<Rightarrow> real" where
  "mean_at g start hx hy hz =
     (case start of (ox, oy, oz) \<Rightarrow> box_mean g (sint ox) (sint oy) (sint oz) hx hy hz)"

section \<open>Reading the refinement mask\<close>

text \<open>
  A mask whose extents are \<open>nx\<close>, \<open>ny\<close>, \<open>nz\<close> and whose vector holds one value per cell,
  as \<open>init\<close> leaves it; \<open>masks_fit\<close> says so of the mask of one level and the extents of
  the level's grid.
\<close>

definition mask_ok :: "refinement_mask \<Rightarrow> nat \<Rightarrow> nat \<Rightarrow> nat \<Rightarrow> bool" where
  "mask_ok m nx ny nz \<longleftrightarrow>
     rm_nx m = nx \<and> rm_ny m = ny \<and> rm_nz m = nz \<and> length (rm_mask m) = nx * ny * nz"

definition masks_fit :: "GridHierarchy \<Rightarrow> nat \<Rightarrow> bool" where
  "masks_fit gh l \<longleftrightarrow>
     l < length (m_ref_masks gh) \<and>
     mask_ok (m_ref_masks gh ! l) (size_h gh l 0) (size_h gh l 1) (size_h gh l 2)"

text \<open>
  The cells of a level, and the tests of the second pass on one cell, by name:
  \<open>first_child\<close> is \<open>ifine\<close>, \<open>child_in_bounds\<close> the comparison of \<open>ifine\<close> with the extents of
  the finer level, \<open>cell_flagged\<close> the value of \<open>fine_is_flagged\<close> in the state the cell is
  visited in. \<open>is_child\<close> holds of the eight cells \<open>ifine + {0, 1}\<close> of the finer level.
\<close>

definition level_cell :: "GridHierarchy \<Rightarrow> nat \<Rightarrow> nat \<times> nat \<times> nat \<Rightarrow> bool" where
  "level_cell gh L c \<longleftrightarrow>
     (case c of (i, j, k) \<Rightarrow> i < size_h gh L 0 \<and> j < size_h gh L 1 \<and> k < size_h gh L 2)"

definition first_child :: "GridHierarchy \<Rightarrow> nat \<Rightarrow> nat \<times> nat \<times> nat \<Rightarrow> int \<times> int \<times> int" where
  "first_child gh ilevel c =
     (case c of (i, j, k) \<Rightarrow>
        (2 * u2i i - 2 * sint (offset_h gh (Suc ilevel) 0),
         2 * u2i j - 2 * sint (offset_h gh (Suc ilevel) 1),
         2 * u2i k - 2 * sint (offset_h gh (Suc ilevel) 2)))"

definition child_in_bounds :: "GridHierarchy \<Rightarrow> nat \<Rightarrow> nat \<times> nat \<times> nat \<Rightarrow> bool" where
  "child_in_bounds gh ilevel c =
     (case first_child gh ilevel c of (if0, if1, if2) \<Rightarrow>
        if0 \<ge> 0 \<and> if0 < u2i (size_h gh (Suc ilevel) 0) \<and>
        if1 \<ge> 0 \<and> if1 < u2i (size_h gh (Suc ilevel) 1) \<and>
        if2 \<ge> 0 \<and> if2 < u2i (size_h gh (Suc ilevel) 2))"

definition cell_flagged :: "GridHierarchy \<Rightarrow> nat \<Rightarrow> nat \<times> nat \<times> nat \<Rightarrow> bool" where
  "cell_flagged gh ilevel c =
     (child_in_bounds gh ilevel c \<and>
      (case first_child gh ilevel c of (if0, if1, if2) \<Rightarrow>
         any8 (m_ref_masks gh ! Suc ilevel) (nat if0) (nat if1) (nat if2)))"

definition is_child :: "GridHierarchy \<Rightarrow> nat \<Rightarrow> nat \<times> nat \<times> nat \<Rightarrow> nat \<times> nat \<times> nat \<Rightarrow> bool" where
  "is_child gh ilevel c f =
     (case first_child gh ilevel c of (if0, if1, if2) \<Rightarrow> case f of (x, y, z) \<Rightarrow>
        (int x = if0 \<or> int x = if0 + 1) \<and> (int y = if1 \<or> int y = if1 + 1) \<and>
        (int z = if2 \<or> int z = if2 + 1))"

text \<open>
  What the first loop leaves on one level: every cell holds the value of its
  \<open>2 \<times> 2 \<times> 2\<close> block, \<open>1\<close> where the region generator accepts the block's query point or the
  level is \<open>levelmin\<close>, and \<open>- 1\<close> elsewhere. \<open>first_pass\<close> is the state between the two
  loops of \<open>add_refinement_mask\<close>.
\<close>

definition first_pass_mask ::
  "(nat \<Rightarrow> nat \<Rightarrow> nat \<Rightarrow> nat \<Rightarrow> bool) \<Rightarrow> GridHierarchy \<Rightarrow> nat \<Rightarrow> refinement_mask \<Rightarrow> bool" where
  "first_pass_mask q gh l m \<longleftrightarrow>
     mask_ok m (size_h gh l 0) (size_h gh l 1) (size_h gh l 2) \<and>
     (\<forall>x < size_h gh l 0. \<forall>y < size_h gh l 1. \<forall>z < size_h gh l 2.
        mask_get m x y z =
          (if q l (2 * (x div 2)) (2 * (y div 2)) (2 * (z div 2)) \<or> int l = u2i (levelmin gh)
           then 1 else - 1))"

definition first_pass :: "(nat \<Rightarrow> nat \<Rightarrow> nat \<Rightarrow> nat \<Rightarrow> bool) \<Rightarrow> GridHierarchy \<Rightarrow> GridHierarchy" where
  "first_pass q gh =
     (fold (flag_level q) (rev [levelmin gh..<Suc (levelmax gh)]) (gh\<lparr>bhave_refmask := False\<rparr>))
       \<lparr>bhave_refmask := True\<rparr>"

text \<open>
  The hierarchies on which both loops stay inside the mask vectors: one mask per level (as
  \<open>create_base_hierarchy\<close> and \<open>add_patch\<close> keep it), a level count that an \<open>int\<close> holds, and
  from \<open>levelmin\<close> on even extents that an \<open>int\<close> holds (the first loop writes whole
  \<open>2 \<times> 2 \<times> 2\<close> blocks, the second casts the extents to \<open>int\<close>). \<open>pass_ready\<close> is the part of
  it the second loop needs on the levels \<open>L\<close> and \<open>L + 1\<close>.
\<close>

definition pass_ready :: "GridHierarchy \<Rightarrow> nat \<Rightarrow> bool" where
  "pass_ready gh L \<longleftrightarrow>
     masks_fit gh L \<and> masks_fit gh (Suc L) \<and>
     (\<forall>d < 3. even (size_h gh (Suc L) d) \<and> size_h gh (Suc L) d < 2 ^ 31 \<and> size_h gh L d < 2 ^ 31)"

definition mask_ready :: "GridHierarchy \<Rightarrow> bool" where
  "mask_ready gh \<longleftrightarrow>
     m_pgrids gh \<noteq> [] \<and> length (m_pgrids gh) < 2 ^ 31 \<and>
     length (m_ref_masks gh) = length (m_pgrids gh) \<and>
     (\<forall>l \<in> set [levelmin gh..<length (m_pgrids gh)]. \<forall>d \<in> set [0..<3].
        even (size_h gh l d) \<and> size_h gh l d < 2 ^ 31)"

text \<open>
  Three nested levels above the base grid: level 1 is the \<open>2 \<times> 2 \<times> 2\<close> base grid, levels 2
  and 3 are \<open>2 \<times> 2 \<times> 2\<close> patches at offset 0, each covering the cell \<open>(0, 0, 0)\<close> of the level
  below. \<open>finest_only\<close> is a region that holds the query points of level 3 and no other.
\<close>

definition ex_nested :: GridHierarchy where
  "ex_nested =
     \<lparr>h_nbnd = 1, m_levelmin = 1,
      m_pgrids = [ex_grid 1 0 (\<lambda>q. 0), ex_grid 2 0 (\<lambda>q. 0), ex_grid 2 0 (\<lambda>q. 0),
                  ex_grid 2 0 (\<lambda>q. 0)],
      m_xoffabs = [0, 0, 0, 0], m_yoffabs = [0, 0, 0, 0], m_zoffabs = [0, 0, 0, 0],
      m_ref_masks = [refinement_mask_new 1 1 1 1, refinement_mask_new 2 2 2 0,
                     refinement_mask_new 2 2 2 0, refinement_mask_new 2 2 2 0],
      bhave_refmask = False\<rparr>"

definition finest_only :: "nat \<Rightarrow> nat \<Rightarrow> nat \<Rightarrow> nat \<Rightarrow> bool" where
  "finest_only ilevel i j k \<longleftrightarrow> ilevel = 3"


section \<open>Integer conversions\<close>

lemma word_half_double: "(w::32 word) mod 2 = 0 \<Longrightarrow> 2 * (w div 2) = w"
  by (metis add_0 mod_mult_div_eq)

lemma even_uint32: "even (uint (w::32 word)) \<longleftrightarrow> even w"
  by transfer simp

lemma even_sint32: "even (sint (w::32 word)) \<longleftrightarrow> even w"
  apply transfer
  apply (simp add: even_signed_take_bit_iff)
  done

lemma even_word_diff: "even (x - a :: 32 word) \<longleftrightarrow> even (int (unat x) - sint a)"
  by (simp add: even_sint32 even_uint32)

lemma word_mod2: "(w :: 32 word) mod 2 = 0 \<longleftrightarrow> even w"
  by (simp add: even_iff_mod_2_eq_zero)

lemma u2i_small: "n < 2 ^ 31 \<Longrightarrow> u2i n = int n"
  unfolding u2i_def
  by (simp add: signed_of_nat signed_take_bit_int_eq_self)

lemma c_int_small: "- (2 ^ 31) \<le> x \<Longrightarrow> x < 2 ^ 31 \<Longrightarrow> c_int x = x"
  unfolding c_int_def
  by (simp add: signed_of_int signed_take_bit_int_eq_self)

lemma cdiv_even: "even a \<Longrightarrow> 2 * cdiv a 2 = a"
  unfolding cdiv_def
  by (cases "a \<ge> 0") (auto simp: sgn_if elim!: evenE)

section \<open>The base hierarchy and added patches\<close>

lemma levelmax_wf: "wf_hierarchy gh \<Longrightarrow> levelmax gh = length (m_pgrids gh) - 1"
  unfolding wf_hierarchy_def levelmax_def
  by (cases "m_pgrids gh") (simp_all add: mod_if)

lemma size_bnd_new [simp]:
  "size_bnd (zero_bnd (MeshvarBnd_new b nx ny nz xo yo zo u)) d =
     (if d = 0 then nx else if d = 1 then ny else nz)"
  by (simp add: size_bnd_def zero_bnd_def MeshvarBnd_new_def)

lemma offset_bnd_new [simp]:
  "offset_bnd (zero_bnd (MeshvarBnd_new b nx ny nz xo yo zo u)) d =
     (if d = 0 then xo else if d = 1 then yo else zo)"
  by (simp add: offset_bnd_def zero_bnd_def MeshvarBnd_new_def)

lemma fold_push_base_level:
  "fold (push_base_level u) [0..<k] (1, gh) =
     (2 ^ k, gh\<lparr>m_pgrids := m_pgrids gh @ map (base_grid u (h_nbnd gh)) [0..<k],
                m_xoffabs := m_xoffabs gh @ replicate k 0,
                m_yoffabs := m_yoffabs gh @ replicate k 0,
                m_zoffabs := m_zoffabs gh @ replicate k 0\<rparr>)"
proof (induction k)
  case 0
  show ?case by simp
next
  case (Suc k)
  have "fold (push_base_level u) [0..<Suc k] (1, gh) =
          push_base_level u k (fold (push_base_level u) [0..<k] (1, gh))"
    by simp
  also have "\<dots> = (2 ^ Suc k,
       gh\<lparr>m_pgrids := m_pgrids gh @ map (base_grid u (h_nbnd gh)) [0..<Suc k],
          m_xoffabs := m_xoffabs gh @ replicate (Suc k) 0,
          m_yoffabs := m_yoffabs gh @ replicate (Suc k) 0,
          m_zoffabs := m_zoffabs gh @ replicate (Suc k) 0\<rparr>)"
    unfolding Suc by (simp add: push_base_level_def base_grid_def replicate_append_same)
  finally show ?case .
qed

lemma fold_push_base_mask_grids:
  "m_pgrids (fold (push_base_mask lmax) ls gh) = m_pgrids gh \<and>
   m_levelmin (fold (push_base_mask lmax) ls gh) = m_levelmin gh"
  by (induction ls arbitrary: gh) (simp_all add: push_base_mask_def size_h_def)

lemma create_base_hierarchy_grids:
  "m_pgrids (create_base_hierarchy u lmax gh) = map (base_grid u (h_nbnd gh)) [0..<Suc lmax]"
  unfolding create_base_hierarchy_def Let_def
  by (simp only: fold_push_base_mask_grids fold_push_base_level) (simp add: deallocate_def)

lemma create_base_hierarchy_levelmin:
  "m_levelmin (create_base_hierarchy u lmax gh) = lmax"
  unfolding create_base_hierarchy_def Let_def
  by (simp only: fold_push_base_mask_grids) simp

section \<open>Offsets across levels\<close>

subsection \<open>The constructor's sweeps\<close>

lemma length_fold_update [simp]:
  "length (fold (\<lambda>l xs. xs[l := f l xs]) ls xs) = length xs"
  by (induction ls arbitrary: xs) simp_all

lemma length_relative_step [simp]: "length (relative_step ab l off) = length off"
  by (simp add: relative_step_def split: prod.splits)

lemma length_forward_step [simp]: "length (forward_step off l ab) = length ab"
  by (simp add: forward_step_def split: prod.splits)

lemma length_fold_relative [simp]: "length (fold (relative_step ab) ls off) = length off"
  by (induction ls arbitrary: off) simp_all

lemma length_fold_forward [simp]: "length (fold (forward_step off) ls ab) = length ab"
  by (induction ls arbitrary: ab) simp_all

lemma fold_relative_untouched:
  "L \<notin> set ls \<Longrightarrow> fold (relative_step ab) ls off ! L = off ! L"
  by (induction ls arbitrary: off) (auto simp: relative_step_def split: prod.splits)

lemma fold_forward_untouched:
  "L \<notin> set ls \<Longrightarrow> fold (forward_step off) ls ab ! L = ab ! L"
  by (induction ls arbitrary: ab) (auto simp: forward_step_def split: prod.splits)

lemma forward_sweep_agrees:
  assumes "length ab = Suc lmax" "a \<le> b" "b \<le> Suc lmax" "0 < a"
  shows "\<forall>L. a \<le> L \<and> L < b \<longrightarrow>
           (case fold (forward_step off) [a..<b] ab ! L of (ax, ay, az) \<Rightarrow>
            case fold (forward_step off) [a..<b] ab ! (L - 1) of (px, py, pz) \<Rightarrow>
            case off ! L of (ox, oy, oz) \<Rightarrow>
              ax = 2 * px + 2 * ox \<and> ay = 2 * py + 2 * oy \<and> az = 2 * pz + 2 * oz)"
  using assms(2,3)
proof (induction b rule: dec_induct)
  case base
  show ?case by simp
next
  case (step n)
  let ?A = "fold (forward_step off) [a..<n] ab"
  have len: "length ?A = Suc lmax" using assms(1) by simp
  have n: "n < length ?A" using step.prems len by simp
  have upd: "fold (forward_step off) [a..<Suc n] ab = forward_step off n ?A"
    using step.hyps by simp
  show ?case
  proof (intro allI impI)
    fix L assume L: "a \<le> L \<and> L < Suc n"
    show "case fold (forward_step off) [a..<Suc n] ab ! L of (ax, ay, az) \<Rightarrow>
            case fold (forward_step off) [a..<Suc n] ab ! (L - 1) of (px, py, pz) \<Rightarrow>
            case off ! L of (ox, oy, oz) \<Rightarrow>
              ax = 2 * px + 2 * ox \<and> ay = 2 * py + 2 * oy \<and> az = 2 * pz + 2 * oz"
    proof (cases "L = n")
      case True
      have "n - 1 \<noteq> n" using assms(4) step.hyps by simp
      then show ?thesis
        unfolding upd True using n
        by (auto simp: forward_step_def split: prod.splits)
    next
      case False
      then have Ln: "L < n" "L - 1 \<noteq> n" "L \<noteq> n" using L by auto
      have IH: "case ?A ! L of (ax, ay, az) \<Rightarrow>
            case ?A ! (L - 1) of (px, py, pz) \<Rightarrow>
            case off ! L of (ox, oy, oz) \<Rightarrow>
              ax = 2 * px + 2 * ox \<and> ay = 2 * py + 2 * oy \<and> az = 2 * pz + 2 * oz"
        using step.IH step.prems L Ln by simp
      have "forward_step off n ?A ! L = ?A ! L" "forward_step off n ?A ! (L - 1) = ?A ! (L - 1)"
        using Ln by (auto simp: forward_step_def split: prod.splits)
      then show ?thesis unfolding upd using IH by simp
    qed
  qed
qed


lemma fold_store_untouched:
  "L \<notin> set ls \<Longrightarrow> fold (\<lambda>l xs. xs[l := f l]) ls xs ! L = xs ! L"
  by (induction ls arbitrary: xs) auto

lemma length_fold_store [simp]: "length (fold (\<lambda>l xs. xs[l := f l]) ls xs) = length xs"
  by (induction ls arbitrary: xs) simp_all

lemma refinement_hierarchy_new_agrees:
  assumes new: "refinement_hierarchy_new lmin lmax pos ext = Inr rh" and le: "lmin \<le> lmax"
    and L: "0 < L" "L \<le> lmax"
  shows "rh_offsets_agree rh L"
proof (cases "lmax = lmin")
  case True
  then have "rh_offsets rh = replicate (Suc lmax) (0, 0, 0)"
    "rh_absoffsets rh = replicate (Suc lmax) (0, 0, 0)"
    using new by (auto simp: refinement_hierarchy_new_def Let_def)
  then show ?thesis using L by (simp add: rh_offsets_agree_def del: replicate.simps)
next
  case False
  define refined where "refined = rev [Suc lmin..<Suc lmax]"
  define abs0 where "abs0 = replicate (Suc lmax) (0::int, 0::int, 0::int)"
  have zero: "abs0 ! k = (0, 0, 0)" if "k \<le> lmax" for k
    unfolding abs0_def using that by (simp del: replicate.simps)
  have len0: "length abs0 = Suc lmax" by (simp add: abs0_def)
  define abs1 where "abs1 = fold (\<lambda>l ab. ab[l := pos l]) refined abs0"
  define off2 where "off2 = fold (relative_step abs1) refined abs0"
  define abs2 where "abs2 = fold (forward_step off2) [Suc lmin..<Suc lmax] abs1"
  have rh: "rh_offsets rh = off2" "rh_absoffsets rh = abs2"
    using new False
    by (auto simp: refinement_hierarchy_new_def Let_def refined_def abs0_def abs1_def off2_def
        abs2_def split: if_splits)
  have len1: "length abs1 = Suc lmax" by (simp add: abs1_def len0)
  show ?thesis
  proof (cases "lmin < L")
    case True
    have "case abs2 ! L of (ax, ay, az) \<Rightarrow>
            case abs2 ! (L - 1) of (px, py, pz) \<Rightarrow>
            case off2 ! L of (ox, oy, oz) \<Rightarrow>
              ax = 2 * px + 2 * ox \<and> ay = 2 * py + 2 * oy \<and> az = 2 * pz + 2 * oz"
      unfolding abs2_def
      using forward_sweep_agrees[OF len1, of "Suc lmin" "Suc lmax" off2] le True L by simp
    then show ?thesis by (simp add: rh_offsets_agree_def rh)
  next
    case low: False
    then have notin: "L \<notin> set refined" "L - 1 \<notin> set refined"
      "L \<notin> set [Suc lmin..<Suc lmax]" "L - 1 \<notin> set [Suc lmin..<Suc lmax]"
      by (auto simp: refined_def)
    have "abs1 ! L = (0, 0, 0)" "abs1 ! (L - 1) = (0, 0, 0)"
      using notin L by (simp_all add: abs1_def zero fold_store_untouched)
    then have a: "abs2 ! L = (0, 0, 0)" "abs2 ! (L - 1) = (0, 0, 0)"
      using notin by (simp_all add: abs2_def fold_forward_untouched)
    have o: "off2 ! L = (0, 0, 0)"
      using notin L by (simp add: off2_def zero fold_relative_untouched)
    show ?thesis using a o by (simp add: rh_offsets_agree_def rh)
  qed
qed

lemma refinement_hierarchy_new_levels:
  "refinement_hierarchy_new lmin lmax pos ext = Inr rh \<Longrightarrow>
     rh_levelmin rh = lmin \<and> rh_levelmax rh = lmax"
  by (auto simp: refinement_hierarchy_new_def Let_def split: if_splits)

subsection \<open>adjust_level\<close>

lemma rh_find_new_levelmin_fields:
  "rh_offsets (fold (\<lambda>i r. if P r i then r\<lparr>rh_levelmin := i\<rparr> else r) ls rh) = rh_offsets rh \<and>
   rh_absoffsets (fold (\<lambda>i r. if P r i then r\<lparr>rh_levelmin := i\<rparr> else r) ls rh) = rh_absoffsets rh \<and>
   rh_len (fold (\<lambda>i r. if P r i then r\<lparr>rh_levelmin := i\<rparr> else r) ls rh) = rh_len rh \<and>
   rh_levelmax (fold (\<lambda>i r. if P r i then r\<lparr>rh_levelmin := i\<rparr> else r) ls rh) = rh_levelmax rh"
  by (induction ls arbitrary: rh) simp_all

lemma rh_find_new_levelmin_keeps [simp]:
  "rh_offsets (rh_find_new_levelmin rh) = rh_offsets rh"
  "rh_absoffsets (rh_find_new_levelmin rh) = rh_absoffsets rh"
  "rh_len (rh_find_new_levelmin rh) = rh_len rh"
  "rh_levelmax (rh_find_new_levelmin rh) = rh_levelmax rh"
  unfolding rh_find_new_levelmin_def
  by (simp_all only: rh_find_new_levelmin_fields)

lemma adjust_level_fields:
  assumes "rh_absoffsets rh ! ilevel = (ax, ay, az)" "rh_offsets rh ! ilevel = (ox, oy, oz)"
    and "c_int (ax - oax) = dx" "c_int (ay - oay) = dy" "c_int (az - oaz) = dz"
  shows "rh_absoffsets (adjust_level ilevel nx ny nz oax oay oaz rh)
           = (rh_absoffsets rh)[ilevel := (oax, oay, oaz)]"
    and "rh_levelmax (adjust_level ilevel nx ny nz oax oay oaz rh) = rh_levelmax rh"
    and "rh_offsets (adjust_level ilevel nx ny nz oax oay oaz rh)
           = (let off1 = (rh_offsets rh)[ilevel := (ox - cdiv dx 2, oy - cdiv dy 2, oz - cdiv dz 2)]
              in if ilevel < rh_levelmax rh
                 then off1[Suc ilevel := (fst (off1 ! Suc ilevel) + dx,
                                          fst (snd (off1 ! Suc ilevel)) + dy,
                                          snd (snd (off1 ! Suc ilevel)) + dz)]
                 else off1)"
  using assms by (simp_all add: adjust_level_def Let_def split: prod.splits)

lemma adjust_level_keeps_agreement:
  assumes wf: "wf_geometry rh" and il: "ilevel \<le> rh_levelmax rh"
    and ev: "even_shift rh ilevel oax oay oaz" and fit: "shift_fits_int rh ilevel oax oay oaz"
    and L: "0 < L" "L \<le> rh_levelmax rh" and agree: "rh_offsets_agree rh L"
  shows "rh_offsets_agree (adjust_level ilevel nx ny nz oax oay oaz rh) L"
proof -
  obtain ax ay az where A: "rh_absoffsets rh ! ilevel = (ax, ay, az)" by (cases "rh_absoffsets rh ! ilevel")
  obtain ox oy oz where O: "rh_offsets rh ! ilevel = (ox, oy, oz)" by (cases "rh_offsets rh ! ilevel")
  obtain bx "by" bz where B: "rh_absoffsets rh ! L = (bx, by, bz)" by (cases "rh_absoffsets rh ! L")
  obtain px py pz where P: "rh_absoffsets rh ! (L - 1) = (px, py, pz)" by (cases "rh_absoffsets rh ! (L - 1)")
  obtain qx qy qz where Q: "rh_offsets rh ! L = (qx, qy, qz)" by (cases "rh_offsets rh ! L")
  define dx dy dz where "dx = ax - oax" and "dy = ay - oay" and "dz = az - oaz"
  define hx hy hz where "hx = cdiv dx 2" and "hy = cdiv dy 2" and "hz = cdiv dz 2"
  have len: "length (rh_offsets rh) = Suc (rh_levelmax rh)"
    "length (rh_absoffsets rh) = Suc (rh_levelmax rh)"
    using wf by (simp_all add: wf_geometry_def)
  from ev fit A have ci: "c_int (ax - oax) = dx" "c_int (ay - oay) = dy" "c_int (az - oaz) = dz"
    and half: "2 * hx = dx" "2 * hy = dy" "2 * hz = dz"
    by (simp_all add: even_shift_def shift_fits_int_def c_int_small cdiv_even dx_def dy_def dz_def
        hx_def hy_def hz_def)
  note fields = adjust_level_fields[OF A O ci, of nx ny nz, folded hx_def hy_def hz_def]
  from agree B P Q have eq: "bx = 2 * px + 2 * qx" "by = 2 * py + 2 * qy" "bz = 2 * pz + 2 * qz"
    by (simp_all add: rh_offsets_agree_def)
  consider "L = ilevel" | "L = Suc ilevel" | "L \<noteq> ilevel" "L \<noteq> Suc ilevel" by blast
  then show ?thesis
  proof cases
    case 1
    then have "L - 1 \<noteq> ilevel" using L by simp
    with 1 have "rh_absoffsets (adjust_level ilevel nx ny nz oax oay oaz rh) ! L = (oax, oay, oaz)"
      "rh_absoffsets (adjust_level ilevel nx ny nz oax oay oaz rh) ! (L - 1) = (px, py, pz)"
      "rh_offsets (adjust_level ilevel nx ny nz oax oay oaz rh) ! L = (ox - hx, oy - hy, oz - hz)"
      using len il L P by (simp_all add: fields Let_def)
    moreover have "ax = bx" "ay = by" "az = bz" "ox = qx" "oy = qy" "oz = qz"
      using 1 A B O Q by simp_all
    ultimately show ?thesis
      using eq half by (simp add: rh_offsets_agree_def dx_def dy_def dz_def) 
  next
    case 2
    then have i: "L - 1 = ilevel" "ilevel < rh_levelmax rh" "L \<noteq> ilevel" using L by simp_all
    with 2 have "rh_absoffsets (adjust_level ilevel nx ny nz oax oay oaz rh) ! L = (bx, by, bz)"
      "rh_absoffsets (adjust_level ilevel nx ny nz oax oay oaz rh) ! (L - 1) = (oax, oay, oaz)"
      "rh_offsets (adjust_level ilevel nx ny nz oax oay oaz rh) ! L = (qx + dx, qy + dy, qz + dz)"
      using len il L B Q by (simp_all add: fields Let_def)
    moreover have "ax = px" "ay = py" "az = pz"
      using i A P by simp_all
    ultimately show ?thesis
      using eq by (simp add: rh_offsets_agree_def dx_def dy_def dz_def)
  next
    case 3
    then have "L - 1 \<noteq> ilevel" using L by auto
    with 3 have "rh_absoffsets (adjust_level ilevel nx ny nz oax oay oaz rh) ! L = (bx, by, bz)"
      "rh_absoffsets (adjust_level ilevel nx ny nz oax oay oaz rh) ! (L - 1) = (px, py, pz)"
      "rh_offsets (adjust_level ilevel nx ny nz oax oay oaz rh) ! L = (qx, qy, qz)"
      using len il L B P Q by (simp_all add: fields Let_def)
    then show ?thesis
      using eq by (simp add: rh_offsets_agree_def)
  qed
qed

subsection \<open>cut_patch\<close>

lemma data_only_refl [simp]: "data_only g g"
  by (simp add: data_only_def)

lemma data_only_trans: "data_only g g' \<Longrightarrow> data_only g' g'' \<Longrightarrow> data_only g g''"
  unfolding data_only_def by (metis MeshvarBnd.update_convs(7) MeshvarBnd.surjective)

lemma data_only_bnd_set [simp]: "data_only g (bnd_set g ix iy iz v)"
  by (simp add: data_only_def bnd_set_def)

lemma data_only_fold:
  assumes "\<And>c h. data_only h (f c h)"
  shows "data_only g (fold f cs g)"
proof (induction cs arbitrary: g)
  case Nil
  show ?case by simp
next
  case (Cons c cs)
  show ?case using data_only_trans[OF assms[of g c] Cons[of "f c g"]] by simp
qed

lemma data_only_fields:
  assumes "data_only g g'"
  shows "m_nx g' = m_nx g" "m_ny g' = m_ny g" "m_nz g' = m_nz g" "m_nbnd g' = m_nbnd g"
    "m_offx g' = m_offx g" "m_offy g' = m_offy g" "m_offz g' = m_offz g"
    "size_bnd g' d = size_bnd g d" "offset_bnd g' d = offset_bnd g d"
    "bnd_index g' ix iy iz = bnd_index g ix iy iz"
proof -
  have g': "g' = g\<lparr>m_pdata := m_pdata g'\<rparr>" using assms by (simp add: data_only_def)
  show "m_nx g' = m_nx g" "m_ny g' = m_ny g" "m_nz g' = m_nz g" "m_nbnd g' = m_nbnd g"
    "m_offx g' = m_offx g" "m_offy g' = m_offy g" "m_offz g' = m_offz g"
    by (subst g', simp)+
  then show "size_bnd g' d = size_bnd g d" "offset_bnd g' d = offset_bnd g d"
    "bnd_index g' ix iy iz = bnd_index g ix iy iz"
    by (simp_all add: size_bnd_def offset_bnd_def bnd_index_def)
qed

lemma data_only_shift_fine [simp]: "data_only g (shift_fine_cell nan corr c g)"
  by (simp add: shift_fine_cell_def split: prod.splits)

lemma data_only_shift_coarse [simp]: "data_only g (shift_coarse_cell nan corr ox oy oz c g)"
  by (simp add: shift_coarse_cell_def Let_def split: prod.splits)

lemma data_only_copy_cell: "data_only (fst s) (fst (copy_cell old dx dy dz c s))"
  by (simp add: copy_cell_def Let_def split: prod.splits)

lemma data_only_copy_fold: "data_only (fst s) (fst (fold (copy_cell old dx dy dz) cs s))"
proof (induction cs arbitrary: s)
  case Nil
  show ?case by simp
next
  case (Cons c cs)
  show ?case
    using data_only_trans[OF data_only_copy_cell[of s old dx dy dz c] Cons[of "copy_cell old dx dy dz c s"]]
    by simp
qed

lemma find_new_levelmin_fields:
  "m_pgrids (fold (\<lambda>i h. if P h i then h\<lparr>m_levelmin := i\<rparr> else h) ls gh) = m_pgrids gh \<and>
   m_xoffabs (fold (\<lambda>i h. if P h i then h\<lparr>m_levelmin := i\<rparr> else h) ls gh) = m_xoffabs gh \<and>
   m_yoffabs (fold (\<lambda>i h. if P h i then h\<lparr>m_levelmin := i\<rparr> else h) ls gh) = m_yoffabs gh \<and>
   m_zoffabs (fold (\<lambda>i h. if P h i then h\<lparr>m_levelmin := i\<rparr> else h) ls gh) = m_zoffabs gh \<and>
   m_ref_masks (fold (\<lambda>i h. if P h i then h\<lparr>m_levelmin := i\<rparr> else h) ls gh) = m_ref_masks gh \<and>
   h_nbnd (fold (\<lambda>i h. if P h i then h\<lparr>m_levelmin := i\<rparr> else h) ls gh) = h_nbnd gh \<and>
   bhave_refmask (fold (\<lambda>i h. if P h i then h\<lparr>m_levelmin := i\<rparr> else h) ls gh) = bhave_refmask gh"
  by (induction ls arbitrary: gh) simp_all

lemma find_new_levelmin_keeps [simp]:
  "m_pgrids (find_new_levelmin gh) = m_pgrids gh"
  "m_xoffabs (find_new_levelmin gh) = m_xoffabs gh"
  "m_yoffabs (find_new_levelmin gh) = m_yoffabs gh"
  "m_zoffabs (find_new_levelmin gh) = m_zoffabs gh"
  "m_ref_masks (find_new_levelmin gh) = m_ref_masks gh"
  "h_nbnd (find_new_levelmin gh) = h_nbnd gh"
  "bhave_refmask (find_new_levelmin gh) = bhave_refmask gh"
  unfolding find_new_levelmin_def
  by (simp_all only: find_new_levelmin_fields)

lemma enforce_mean_keeps [simp]:
  "m_xoffabs (enforce_mean nan e ilevel nx ny nz fs fc gh) = m_xoffabs gh"
  "m_yoffabs (enforce_mean nan e ilevel nx ny nz fs fc gh) = m_yoffabs gh"
  "m_zoffabs (enforce_mean nan e ilevel nx ny nz fs fc gh) = m_zoffabs gh"
  "m_levelmin (enforce_mean nan e ilevel nx ny nz fs fc gh) = m_levelmin gh"
  "h_nbnd (enforce_mean nan e ilevel nx ny nz fs fc gh) = h_nbnd gh"
  "length (m_pgrids (enforce_mean nan e ilevel nx ny nz fs fc gh)) = length (m_pgrids gh)"
  by (simp_all add: enforce_mean_def Let_def)

lemma data_only_fold_fine [simp]: "data_only g (fold (shift_fine_cell nan corr) cs g)"
  by (rule data_only_fold) simp

lemma data_only_fold_coarse [simp]: "data_only g (fold (shift_coarse_cell nan corr ox oy oz) cs g)"
  by (rule data_only_fold) simp

lemma data_only_nth_update:
  "data_only (xs ! i) y \<Longrightarrow> data_only (xs ! L) (xs[i := y] ! L)"
  by (cases "i < length xs"; cases "L = i") (simp_all add: list_update_beyond)

lemma enforce_mean_data_only:
  "data_only (m_pgrids gh ! L) (m_pgrids (enforce_mean nan e ilevel nx ny nz fs fc gh) ! L)"
  by (simp add: enforce_mean_def Let_def data_only_nth_update)

text \<open>The state \<open>cut_patch\<close> returns, level by level.\<close>

lemma cut_patch_result:
  assumes cut: "cut_patch uninit nan ilevel xoff yoff zoff nx ny nz e gh = Inr gh'"
    and wf: "wf_hierarchy gh" and il: "ilevel < length (m_pgrids gh)"
  defines "dx \<equiv> xoff - m_xoffabs gh ! ilevel"
    and "dy \<equiv> yoff - m_yoffabs gh ! ilevel"
    and "dz \<equiv> zoff - m_zoffabs gh ! ilevel"
  shows "dx mod 2 = 0 \<and> dy mod 2 = 0 \<and> dz mod 2 = 0"
    and "length (m_pgrids gh') = length (m_pgrids gh)"
    and "m_xoffabs gh' = (m_xoffabs gh)[ilevel := xoff]"
    and "m_yoffabs gh' = (m_yoffabs gh)[ilevel := yoff]"
    and "m_zoffabs gh' = (m_zoffabs gh)[ilevel := zoff]"
    and "m_offx (m_pgrids gh' ! ilevel) = m_offx (m_pgrids gh ! ilevel) + dx div 2"
    and "m_offy (m_pgrids gh' ! ilevel) = m_offy (m_pgrids gh ! ilevel) + dy div 2"
    and "m_offz (m_pgrids gh' ! ilevel) = m_offz (m_pgrids gh ! ilevel) + dz div 2"
    and "Suc ilevel < length (m_pgrids gh) \<Longrightarrow>
           m_offx (m_pgrids gh' ! Suc ilevel) = m_offx (m_pgrids gh ! Suc ilevel) - dx \<and>
           m_offy (m_pgrids gh' ! Suc ilevel) = m_offy (m_pgrids gh ! Suc ilevel) - dy \<and>
           m_offz (m_pgrids gh' ! Suc ilevel) = m_offz (m_pgrids gh ! Suc ilevel) - dz"
    and "L < length (m_pgrids gh) \<Longrightarrow> L \<noteq> ilevel \<Longrightarrow> L \<noteq> Suc ilevel \<Longrightarrow>
           m_offx (m_pgrids gh' ! L) = m_offx (m_pgrids gh ! L) \<and>
           m_offy (m_pgrids gh' ! L) = m_offy (m_pgrids gh ! L) \<and>
           m_offz (m_pgrids gh' ! L) = m_offz (m_pgrids gh ! L)"
proof -
  show ev: "dx mod 2 = 0 \<and> dy mod 2 = 0 \<and> dz mod 2 = 0"
    using cut by (auto simp: cut_patch_def Let_def dx_def dy_def dz_def split: if_splits)
  define old where "old = m_pgrids gh ! ilevel"
  define mnew0 where "mnew0 = MeshvarBnd_new (h_nbnd gh) (unat nx) (unat ny) (unat nz)
     (offset_bnd old 0 + dx div 2) (offset_bnd old 1 + dy div 2) (offset_bnd old 2 + dz div 2) uninit"
  define cp where "cp = fold (copy_cell old dx dy dz) (idx3 (unat nx) (unat ny) (unat nz))
                      (mnew0, 0, 0)"
  define gh1 where "gh1 = gh\<lparr>m_pgrids := (m_pgrids gh)[ilevel := fst cp],
                        m_xoffabs := (m_xoffabs gh)[ilevel := m_xoffabs gh ! ilevel + dx],
                        m_yoffabs := (m_yoffabs gh)[ilevel := m_yoffabs gh ! ilevel + dy],
                        m_zoffabs := (m_zoffabs gh)[ilevel := m_zoffabs gh ! ilevel + dz]\<rparr>"
  define gh2 where "gh2 = (if ilevel < levelmax gh1
                      then gh1\<lparr>m_pgrids := (m_pgrids gh1)[Suc ilevel :=
                             (m_pgrids gh1 ! Suc ilevel)
                               \<lparr>m_offx := m_offx (m_pgrids gh1 ! Suc ilevel) - dx,
                                m_offy := m_offy (m_pgrids gh1 ! Suc ilevel) - dy,
                                m_offz := m_offz (m_pgrids gh1 ! Suc ilevel) - dz\<rparr>]\<rparr>
                      else gh1)"
  have "cut_patch uninit nan ilevel xoff yoff zoff nx ny nz e gh =
          Inr (find_new_levelmin (enforce_mean nan e ilevel nx ny nz (fst (snd cp)) (snd (snd cp)) gh2))"
    unfolding cut_patch_def gh2_def gh1_def cp_def mnew0_def old_def dx_def dy_def dz_def Let_def
    using ev[unfolded dx_def dy_def dz_def] by (simp only: simp_thms if_False)
  then have gh': "gh' = find_new_levelmin (enforce_mean nan e ilevel nx ny nz (fst (snd cp)) (snd (snd cp)) gh2)"
    using cut by simp
  have wf1: "wf_hierarchy gh1" using wf by (simp add: wf_hierarchy_def gh1_def)
  have lm1: "levelmax gh1 = length (m_pgrids gh) - 1"
    using levelmax_wf[OF wf1] by (simp add: gh1_def)
  have len2: "length (m_pgrids gh2) = length (m_pgrids gh)"
    by (simp add: gh2_def gh1_def)
  show "length (m_pgrids gh') = length (m_pgrids gh)"
    by (simp add: gh' len2)
  show "m_xoffabs gh' = (m_xoffabs gh)[ilevel := xoff]"
    "m_yoffabs gh' = (m_yoffabs gh)[ilevel := yoff]"
    "m_zoffabs gh' = (m_zoffabs gh)[ilevel := zoff]"
    by (simp_all add: gh' gh2_def gh1_def dx_def dy_def dz_def)
  have cp_only: "data_only mnew0 (fst cp)"
    unfolding cp_def using data_only_copy_fold[of "(mnew0, 0, 0)"] by simp
  have off_any: "m_offx (m_pgrids gh' ! K) = m_offx (m_pgrids gh2 ! K) \<and>
                 m_offy (m_pgrids gh' ! K) = m_offy (m_pgrids gh2 ! K) \<and>
                 m_offz (m_pgrids gh' ! K) = m_offz (m_pgrids gh2 ! K)"
    if "K < length (m_pgrids gh)" for K
    using data_only_fields[OF enforce_mean_data_only[of gh2 K nan e ilevel nx ny nz "fst (snd cp)" "snd (snd cp)"]]
      that len2
    by (simp add: gh')
  have g2_il: "m_pgrids gh2 ! ilevel = fst cp"
    using il by (simp add: gh2_def gh1_def)
  show "m_offx (m_pgrids gh' ! ilevel) = m_offx (m_pgrids gh ! ilevel) + dx div 2"
    "m_offy (m_pgrids gh' ! ilevel) = m_offy (m_pgrids gh ! ilevel) + dy div 2"
    "m_offz (m_pgrids gh' ! ilevel) = m_offz (m_pgrids gh ! ilevel) + dz div 2"
    using off_any[OF il] data_only_fields[OF cp_only]
    by (simp_all add: g2_il mnew0_def MeshvarBnd_new_def old_def offset_bnd_def)
  show "m_offx (m_pgrids gh' ! Suc ilevel) = m_offx (m_pgrids gh ! Suc ilevel) - dx \<and>
        m_offy (m_pgrids gh' ! Suc ilevel) = m_offy (m_pgrids gh ! Suc ilevel) - dy \<and>
        m_offz (m_pgrids gh' ! Suc ilevel) = m_offz (m_pgrids gh ! Suc ilevel) - dz"
    if "Suc ilevel < length (m_pgrids gh)"
  proof -
    have "ilevel < levelmax gh1" using that lm1 by simp
    then show ?thesis
      using off_any[OF that] that by (simp add: gh2_def) (simp add: gh1_def)
  qed
  show "m_offx (m_pgrids gh' ! L) = m_offx (m_pgrids gh ! L) \<and>
        m_offy (m_pgrids gh' ! L) = m_offy (m_pgrids gh ! L) \<and>
        m_offz (m_pgrids gh' ! L) = m_offz (m_pgrids gh ! L)"
    if "L < length (m_pgrids gh)" "L \<noteq> ilevel" "L \<noteq> Suc ilevel"
    using off_any[OF that(1)] that
    by (simp add: gh2_def gh1_def)
qed

text \<open>One dimension of the shift, read as integers.\<close>

lemma sint_small: "uint (w :: 32 word) < 2 ^ 31 \<Longrightarrow> sint w = (uint w :: int)"
proof -
  assume a: "(uint w :: int) < 2 ^ 31"
  have "sint w = c_int (uint w)" by (simp add: c_int_def)
  also have "\<dots> = uint w"
  proof (rule c_int_small)
    show "- (2 ^ 31) \<le> (uint w :: int)" by (rule order_trans[of _ 0]) simp_all
    show "(uint w :: int) < 2 ^ 31" by (rule a)
  qed
  finally show ?thesis .
qed

lemma shift_as_int:
  fixes req a :: "32 word"
  assumes "(0 :: int) \<le> uint req - sint a" "(uint req :: int) < 2 ^ 31"
  shows "uint (req - a) = (uint req - sint a :: int)"
proof -
  have "req - a = word_of_int (uint req - sint a)" by simp
  then have "uint (req - a) = (uint req - sint a) mod 2 ^ 32"
    by (simp only: uint_word_of_int) simp
  moreover have "uint req - sint a < 2 ^ 32"
    using sint_ge[of a] assms(2) by simp
  ultimately show ?thesis using assms by simp
qed

lemma sint_plus_small:
  fixes r h :: "32 word"
  assumes "- (2 ^ 31) \<le> (sint r + uint h :: int)" "(sint r + uint h :: int) < 2 ^ 31"
  shows "sint (r + h) = (sint r + uint h :: int)"
proof -
  have "r + h = word_of_int (sint r + uint h)" by simp
  then have "sint (r + h) = c_int (sint r + uint h)" by (simp only: c_int_def)
  then show ?thesis using assms by (simp add: c_int_small)
qed

lemma sint_minus_small:
  fixes v h :: "32 word"
  assumes "- (2 ^ 31) \<le> (sint v - uint h :: int)" "(sint v - uint h :: int) < 2 ^ 31"
  shows "sint (v - h) = (sint v - uint h :: int)"
proof -
  have "v - h = word_of_int (sint v - uint h)" by simp
  then have "sint (v - h) = c_int (sint v - uint h)" by (simp only: c_int_def)
  then show ?thesis using assms by (simp add: c_int_small)
qed

lemma fits1_level:
  assumes f: "fits1 req a r f" and ev: "(req - a) mod 2 = 0"
    and before: "sint a = (2 * sint p + 2 * sint r :: int)"
  shows "sint req = (2 * sint p + 2 * sint (r + (req - a) div 2) :: int)"
proof -
  define D :: int where "D = uint req - sint a"
  have d: "0 \<le> D" "uint req < 2 ^ 31" "sint r + D div 2 < 2 ^ 31"
    using f by (simp_all add: fits1_def D_def)
  have u: "uint (req - a) = D" using shift_as_int[of req a] d(1,2) by (simp add: D_def)
  have e: "even D" using ev u even_uint32[of "req - a"] by (simp add: word_mod2)
  have h: "uint ((req - a) div 2) = D div 2" by (simp add: uint_div u)
  have "- (2 ^ 31) \<le> sint r + D div 2" using sint_ge[of r] d(1) by simp
  then have s: "sint (r + (req - a) div 2) = sint r + D div 2"
    using sint_plus_small[of r "(req - a) div 2"] d(3) by (simp add: h)
  have q: "sint req = sint a + D" using sint_small[OF d(2)] by (simp add: D_def)
  show ?thesis
    unfolding s q before using e by auto
qed

lemma fits1_finer:
  assumes f: "fits1 req a r (Some v)" and before: "sint b = (2 * sint a + 2 * sint v :: int)"
  shows "sint b = (2 * sint req + 2 * sint (v - (req - a)) :: int)"
proof -
  define D :: int where "D = uint req - sint a"
  have d: "0 \<le> D" "uint req < 2 ^ 31" "- (2 ^ 31) \<le> sint v - D"
    using f by (simp_all add: fits1_def D_def)
  have u: "uint (req - a) = D" using shift_as_int[of req a] d(1,2) by (simp add: D_def)
  have "sint v - D < 2 ^ 31" using sint_lt[of v] d(1) by simp
  then have s: "sint (v - (req - a)) = sint v - D"
    using sint_minus_small[of v "req - a"] d(3) by (simp add: u)
  have q: "sint req = sint a + D" using sint_small[OF d(2)] by (simp add: D_def)
  show ?thesis
    unfolding s q before by simp
qed

lemma cut_patch_keeps_agreement:
  assumes cut: "cut_patch uninit nan ilevel xoff yoff zoff nx ny nz e gh = Inr gh'"
    and wf: "wf_hierarchy gh" and il: "ilevel < length (m_pgrids gh)"
    and fit: "shift_fits gh ilevel xoff yoff zoff"
    and L: "0 < L" "L < length (m_pgrids gh)" and agree: "offsets_agree gh L"
  shows "offsets_agree gh' L"
proof -
  note r = cut_patch_result[OF cut wf il]
  have len: "length (m_xoffabs gh) = length (m_pgrids gh)"
    "length (m_yoffabs gh) = length (m_pgrids gh)" "length (m_zoffabs gh) = length (m_pgrids gh)"
    using wf by (simp_all add: wf_hierarchy_def)
  have f: "fits1 xoff (m_xoffabs gh ! ilevel) (m_offx (m_pgrids gh ! ilevel)) (finer_offset gh ilevel 0)"
    "fits1 yoff (m_yoffabs gh ! ilevel) (m_offy (m_pgrids gh ! ilevel)) (finer_offset gh ilevel 1)"
    "fits1 zoff (m_zoffabs gh ! ilevel) (m_offz (m_pgrids gh ! ilevel)) (finer_offset gh ilevel 2)"
    using fit by (simp_all add: shift_fits_def offset_h_def offset_bnd_def)
  have ag: "sint (m_xoffabs gh ! L) = 2 * sint (m_xoffabs gh ! (L - 1)) + 2 * sint (m_offx (m_pgrids gh ! L))"
    "sint (m_yoffabs gh ! L) = 2 * sint (m_yoffabs gh ! (L - 1)) + 2 * sint (m_offy (m_pgrids gh ! L))"
    "sint (m_zoffabs gh ! L) = 2 * sint (m_zoffabs gh ! (L - 1)) + 2 * sint (m_offz (m_pgrids gh ! L))"
    using agree by (simp_all add: offsets_agree_def offset_abs_def offset_h_def offset_bnd_def)
  consider "L = ilevel" | "L = Suc ilevel" | "L \<noteq> ilevel" "L \<noteq> Suc ilevel" by blast
  then show ?thesis
  proof cases
    case 1
    then have n: "L - 1 \<noteq> ilevel" "L - 1 < length (m_pgrids gh)" using L by simp_all
    have a: "m_xoffabs gh' ! L = xoff" "m_yoffabs gh' ! L = yoff" "m_zoffabs gh' ! L = zoff"
      "m_xoffabs gh' ! (L - Suc 0) = m_xoffabs gh ! (L - Suc 0)"
      "m_yoffabs gh' ! (L - Suc 0) = m_yoffabs gh ! (L - Suc 0)"
      "m_zoffabs gh' ! (L - Suc 0) = m_zoffabs gh ! (L - Suc 0)"
      using 1 n il len by (simp_all add: r(3-5))
    have o: "m_offx (m_pgrids gh' ! L) = m_offx (m_pgrids gh ! L) + (xoff - m_xoffabs gh ! L) div 2"
      "m_offy (m_pgrids gh' ! L) = m_offy (m_pgrids gh ! L) + (yoff - m_yoffabs gh ! L) div 2"
      "m_offz (m_pgrids gh' ! L) = m_offz (m_pgrids gh ! L) + (zoff - m_zoffabs gh ! L) div 2"
      using r(6-8) 1 by simp_all
    show ?thesis
      unfolding offsets_agree_def offset_abs_def offset_h_def offset_bnd_def
      using fits1_level[OF f(1)[folded 1] _ ag(1)] fits1_level[OF f(2)[folded 1] _ ag(2)]
        fits1_level[OF f(3)[folded 1] _ ag(3)] r(1)[folded 1]
      by (simp add: a o)
  next
    case 2
    then have i: "L - 1 = ilevel" "L \<noteq> ilevel" and S: "Suc ilevel < length (m_pgrids gh)"
      using L by simp_all
    have o: "m_offx (m_pgrids gh' ! L) = m_offx (m_pgrids gh ! L) - (xoff - m_xoffabs gh ! ilevel)"
      "m_offy (m_pgrids gh' ! L) = m_offy (m_pgrids gh ! L) - (yoff - m_yoffabs gh ! ilevel)"
      "m_offz (m_pgrids gh' ! L) = m_offz (m_pgrids gh ! L) - (zoff - m_zoffabs gh ! ilevel)"
      using r(9)[OF S] 2 by simp_all
    have a: "m_xoffabs gh' ! L = m_xoffabs gh ! L" "m_yoffabs gh' ! L = m_yoffabs gh ! L"
      "m_zoffabs gh' ! L = m_zoffabs gh ! L"
      "m_xoffabs gh' ! (L - Suc 0) = xoff" "m_yoffabs gh' ! (L - Suc 0) = yoff"
      "m_zoffabs gh' ! (L - Suc 0) = zoff"
      using i il len by (simp_all add: r(3-5))
    have f': "fits1 xoff (m_xoffabs gh ! ilevel) (m_offx (m_pgrids gh ! ilevel)) (Some (m_offx (m_pgrids gh ! L)))"
      "fits1 yoff (m_yoffabs gh ! ilevel) (m_offy (m_pgrids gh ! ilevel)) (Some (m_offy (m_pgrids gh ! L)))"
      "fits1 zoff (m_zoffabs gh ! ilevel) (m_offz (m_pgrids gh ! ilevel)) (Some (m_offz (m_pgrids gh ! L)))"
      using f S 2 by (simp_all add: finer_offset_def offset_h_def offset_bnd_def)
    show ?thesis
      unfolding offsets_agree_def offset_abs_def offset_h_def offset_bnd_def
      using fits1_finer[OF f'(1) ag(1)[unfolded i]] fits1_finer[OF f'(2) ag(2)[unfolded i]]
        fits1_finer[OF f'(3) ag(3)[unfolded i]]
      by (simp add: a o)
  next
    case 3
    then have "L - 1 \<noteq> ilevel" using L by auto
    then show ?thesis
      using agree 3 il len L r(10)[of L] r(10)[of "L - 1"]
      by (simp add: offsets_agree_def offset_abs_def offset_h_def offset_bnd_def r(3-5))
  qed
qed

lemma shift_even_iff:
  "shift_even gh ilevel xoff yoff zoff \<longleftrightarrow>
     (xoff - m_xoffabs gh ! ilevel) mod 2 = 0 \<and> (yoff - m_yoffabs gh ! ilevel) mod 2 = 0 \<and>
     (zoff - m_zoffabs gh ! ilevel) mod 2 = 0"
  by (simp only: shift_even_def word_mod2 even_word_diff)

lemma cut_patch_returns:
  "(\<exists>gh'. cut_patch uninit nan ilevel xoff yoff zoff nx ny nz e gh = Inr gh') \<longleftrightarrow>
     shift_even gh ilevel xoff yoff zoff"
  unfolding shift_even_iff cut_patch_def Let_def by simp

lemma cut_patch_fails:
  "cut_patch uninit nan ilevel xoff yoff zoff nx ny nz e gh = Inl AssertionFailure \<longleftrightarrow>
     \<not> shift_even gh ilevel xoff yoff zoff"
  unfolding shift_even_iff cut_patch_def Let_def by simp

section \<open>Loops over the cells of a grid\<close>

lemma flat_index_unique:
  fixes a a' c c' n :: int
  assumes "0 \<le> c" "c < n" "0 \<le> c'" "c' < n" "a * n + c = a' * n + c'"
  shows "a = a' \<and> c = c'"
proof -
  have "c = (a * n + c) mod n" using assms(1,2) by simp
  also have "\<dots> = (a' * n + c') mod n" by (simp only: assms(5))
  also have "\<dots> = c'" using assms(3,4) by simp
  finally have c: "c = c'" .
  then have "a * n = a' * n" using assms(5) by simp
  moreover have "n > 0" using assms by linarith
  ultimately show ?thesis using c by simp
qed

lemma bnd_index_inj:
  assumes "0 \<le> iy + int (m_nbnd g)" "iy + int (m_nbnd g) < int (m_ny g)"
    "0 \<le> iz + int (m_nbnd g)" "iz + int (m_nbnd g) < int (m_nz g)"
    "0 \<le> iy' + int (m_nbnd g)" "iy' + int (m_nbnd g) < int (m_ny g)"
    "0 \<le> iz' + int (m_nbnd g)" "iz' + int (m_nbnd g) < int (m_nz g)"
    "bnd_index g ix iy iz = bnd_index g ix' iy' iz'"
  shows "ix = ix' \<and> iy = iy' \<and> iz = iz'"
proof -
  from flat_index_unique[OF assms(3,4,7,8) assms(9)[unfolded bnd_index_def]]
  have 1: "(ix + int (m_nbnd g)) * int (m_ny g) + (iy + int (m_nbnd g)) =
           (ix' + int (m_nbnd g)) * int (m_ny g) + (iy' + int (m_nbnd g))" and z: "iz = iz'"
    by simp_all
  from flat_index_unique[OF assms(1,2,5,6) 1] z show ?thesis by simp
qed

text \<open>A loop that rewrites the store at one address per visited item.\<close>

lemma fold_store_other:
  "a \<notin> addr ` set cs \<Longrightarrow> fold (\<lambda>c d. d(addr c := F c (d (addr c)))) cs d a = d a"
  by (induction cs arbitrary: d) auto

lemma fold_store_at:
  "distinct (map addr cs) \<Longrightarrow> c \<in> set cs \<Longrightarrow>
     fold (\<lambda>c d. d(addr c := F c (d (addr c)))) cs d (addr c) = F c (d (addr c))"
proof (induction cs arbitrary: d)
  case Nil
  then show ?case by simp
next
  case (Cons x xs)
  show ?case
  proof (cases "c = x")
    case True
    have "addr x \<notin> addr ` set xs" using Cons.prems(1) by auto
    then have "fold (\<lambda>c d. d(addr c := F c (d (addr c)))) xs (d(addr x := F x (d (addr x)))) (addr x)
                 = (d(addr x := F x (d (addr x)))) (addr x)"
      by (rule fold_store_other)
    then show ?thesis using True by (simp add: fun_upd_same del: fun_upd_apply)
  next
    case False
    then have "c \<in> set xs" using Cons.prems by auto
    moreover from this have "addr c \<noteq> addr x" using Cons.prems(1)
      by (metis distinct.simps(2) image_eqI list.simps(9) set_map)
    ultimately have "c \<in> set xs" "addr c \<noteq> addr x" by simp_all
    then show ?thesis using Cons.IH[of "d(addr x := F x (d (addr x)))"] Cons.prems(1)
      by (simp add: fun_upd_other del: fun_upd_apply)
  qed
qed

lemma fold_cell_update:
  assumes "\<And>c h. upd c h =
     h\<lparr>m_pdata := (m_pdata h)(bnd_index h (X c) (Y c) (Z c) :=
                       F c (m_pdata h (bnd_index h (X c) (Y c) (Z c))))\<rparr>"
  shows "fold upd cs g =
     g\<lparr>m_pdata := fold (\<lambda>c d. d(bnd_index g (X c) (Y c) (Z c) := F c (d (bnd_index g (X c) (Y c) (Z c)))))
                     cs (m_pdata g)\<rparr>"
proof (induction cs arbitrary: g)
  case Nil
  show ?case by simp
next
  case (Cons c cs)
  have same: "bnd_index (upd c g) ix iy iz = bnd_index g ix iy iz" for ix iy iz
    by (simp add: assms bnd_index_def)
  show ?case
    by (simp add: Cons same) (simp add: assms)
qed

text \<open>The cells of a loop nest are distinct, and distinct cells have distinct addresses.\<close>

lemma set_idx3: "set (idx3 nx ny nz) = {(i, j, k). i < nx \<and> j < ny \<and> k < nz}"
  by (auto simp: idx3_def)

lemma distinct_idx3: "distinct (idx3 nx ny nz)"
  by (simp add: idx3_def distinct_product)

lemma length_idx3: "length (idx3 nx ny nz) = nx * ny * nz"
  by (simp add: idx3_def)

lemma distinct_addresses:
  assumes "\<And>i j k. i < nx \<Longrightarrow> j < ny \<Longrightarrow> k < nz \<Longrightarrow>
             0 \<le> Y (i, j, k) + int (m_nbnd g) \<and> Y (i, j, k) + int (m_nbnd g) < int (m_ny g) \<and>
             0 \<le> Z (i, j, k) + int (m_nbnd g) \<and> Z (i, j, k) + int (m_nbnd g) < int (m_nz g)"
    and "inj_on (\<lambda>c. (X c, Y c, Z c)) (set (idx3 nx ny nz))"
  shows "distinct (map (\<lambda>c. bnd_index g (X c) (Y c) (Z c)) (idx3 nx ny nz))"
proof -
  have "inj_on (\<lambda>c. bnd_index g (X c) (Y c) (Z c)) (set (idx3 nx ny nz))"
  proof (rule inj_onI)
    fix c c' assume c: "c \<in> set (idx3 nx ny nz)" "c' \<in> set (idx3 nx ny nz)"
      and eq: "bnd_index g (X c) (Y c) (Z c) = bnd_index g (X c') (Y c') (Z c')"
    obtain i j k where c1: "c = (i, j, k)" by (cases c)
    obtain i' j' k' where c2: "c' = (i', j', k')" by (cases c')
    have b: "i < nx" "j < ny" "k < nz" "i' < nx" "j' < ny" "k' < nz"
      using c c1 c2 by (simp_all add: set_idx3)
    have "X c = X c' \<and> Y c = Y c' \<and> Z c = Z c'"
      using bnd_index_inj[OF _ _ _ _ _ _ _ _ eq] assms(1)[OF b(1-3)] assms(1)[OF b(4-6)]
      by (simp add: c1 c2)
    then show "c = c'" using assms(2) c by (auto dest: inj_onD)
  qed
  then show ?thesis by (simp add: distinct_map distinct_idx3)
qed

section \<open>Mean removal\<close>

lemma fold_add_sum: "fold (\<lambda>c s. s + f c) cs (s0::real) = s0 + sum_list (map f cs)"
  by (induction cs arbitrary: s0) simp_all

lemma sum_list_shift:
  "sum_list (map (\<lambda>c. f c + (k::real)) cs) = sum_list (map f cs) + real (length cs) * k"
  by (induction cs) (simp_all add: algebra_simps)

lemma cells_of_addressable:
  "addressable g \<Longrightarrow> cells_of g = idx3 (size_bnd g 0) (size_bnd g 1) (size_bnd g 2)"
  by (simp add: cells_of_def addressable_def u2i_small)

lemma cell_in_block:
  assumes "j < size_bnd g 1" "k < size_bnd g 2"
  shows "0 \<le> int j + int (m_nbnd g) \<and> int j + int (m_nbnd g) < int (m_ny g) \<and>
         0 \<le> int k + int (m_nbnd g) \<and> int k + int (m_nbnd g) < int (m_nz g)"
  using assms by (auto simp: size_bnd_def)

lemma subtract_fold_store:
  "fold (subtract_cell s) cs g =
     g\<lparr>m_pdata := fold (\<lambda>c d. d(bnd_index g (int (fst c)) (u2i (fst (snd c))) (u2i (snd (snd c)))
                                  := d (bnd_index g (int (fst c)) (u2i (fst (snd c))) (u2i (snd (snd c)))) - s))
                     cs (m_pdata g)\<rparr>"
  by (rule fold_cell_update[where F = "\<lambda>c v. v - s"])
     (simp add: subtract_cell_def bnd_set_def bnd_get_def split: prod.splits)

lemma subtract_distinct:
  assumes "addressable g"
  shows "distinct (map (\<lambda>c. bnd_index g (int (fst c)) (u2i (fst (snd c))) (u2i (snd (snd c))))
                     (idx3 (size_bnd g 0) (size_bnd g 1) (size_bnd g 2)))"
proof (rule distinct_addresses)
  fix i j k assume b: "i < size_bnd g 0" "j < size_bnd g 1" "k < size_bnd g 2"
  then have "u2i j = int j" "u2i k = int k"
    using assms by (simp_all add: addressable_def u2i_small)
  then show "0 \<le> u2i (fst (snd (i, j, k))) + int (m_nbnd g) \<and>
        u2i (fst (snd (i, j, k))) + int (m_nbnd g) < int (m_ny g) \<and>
        0 \<le> u2i (snd (snd (i, j, k))) + int (m_nbnd g) \<and>
        u2i (snd (snd (i, j, k))) + int (m_nbnd g) < int (m_nz g)"
    using cell_in_block[OF b(2,3)] by simp
next
  show "inj_on (\<lambda>c. (int (fst c), u2i (fst (snd c)), u2i (snd (snd c))))
          (set (idx3 (size_bnd g 0) (size_bnd g 1) (size_bnd g 2)))"
  proof (rule inj_onI)
    fix c c' assume c: "c \<in> set (idx3 (size_bnd g 0) (size_bnd g 1) (size_bnd g 2))"
      "c' \<in> set (idx3 (size_bnd g 0) (size_bnd g 1) (size_bnd g 2))"
      and eq: "(int (fst c), u2i (fst (snd c)), u2i (snd (snd c))) =
               (int (fst c'), u2i (fst (snd c')), u2i (snd (snd c')))"
    have "u2i (fst (snd c)) = int (fst (snd c))" "u2i (snd (snd c)) = int (snd (snd c))"
      "u2i (fst (snd c')) = int (fst (snd c'))" "u2i (snd (snd c')) = int (snd (snd c'))"
      using c assms by (auto simp: set_idx3 addressable_def u2i_small)
    then show "c = c'" using eq by (simp add: prod_eq_iff)
  qed
qed

lemma subtract_level_cell:
  assumes a: "addressable g" and b: "i < size_bnd g 0" "j < size_bnd g 1" "k < size_bnd g 2"
  shows "bnd_get (fold (subtract_cell s) (cells_of g) g) (int i) (int j) (int k)
           = bnd_get g (int i) (int j) (int k) - s"
proof -
  let ?addr = "\<lambda>c. bnd_index g (int (fst c)) (u2i (fst (snd c))) (u2i (snd (snd c)))"
  have u: "u2i j = int j" "u2i k = int k"
    using a b by (simp_all add: addressable_def u2i_small)
  have mem: "(i, j, k) \<in> set (idx3 (size_bnd g 0) (size_bnd g 1) (size_bnd g 2))"
    using b by (simp add: set_idx3)
  have "fold (\<lambda>c d. d(?addr c := d (?addr c) - s)) (idx3 (size_bnd g 0) (size_bnd g 1) (size_bnd g 2))
          (m_pdata g) (?addr (i, j, k)) = m_pdata g (?addr (i, j, k)) - s"
    by (rule fold_store_at[where F = "\<lambda>c v. v - s", OF subtract_distinct[OF a] mem])
  then show ?thesis
    by (simp add: cells_of_addressable[OF a] subtract_fold_store bnd_get_def bnd_index_def u)
qed

lemma sum_cells_level_mean:
  assumes "addressable g"
  shows "fold (sum_cell g) (cells_of g) 0 / real (size_bnd g 0 * size_bnd g 1 * size_bnd g 2)
           = level_mean g"
proof -
  have "sum_cell g = (\<lambda>c s. s + (case c of (ix, iy, iz) \<Rightarrow> bnd_get g (int ix) (u2i iy) (u2i iz)))"
    by (rule ext)+ (simp add: sum_cell_def split: prod.splits)
  then have "fold (sum_cell g) (cells_of g) 0 =
      sum_list (map (\<lambda>c. case c of (ix, iy, iz) \<Rightarrow> bnd_get g (int ix) (u2i iy) (u2i iz)) (cells_of g))"
    by (simp add: fold_add_sum)
  also have "\<dots> = sum_list (map (\<lambda>c. case c of (i, j, k) \<Rightarrow> bnd_get g (int i + 0) (int j + 0) (int k + 0))
                          (idx3 (size_bnd g 0) (size_bnd g 1) (size_bnd g 2)))"
    unfolding cells_of_addressable[OF assms]
    using assms
    by (intro arg_cong[where f = sum_list] map_cong refl)
       (auto simp: set_idx3 addressable_def u2i_small)
  finally show ?thesis by (simp add: level_mean_def box_mean_def)
qed

lemma level_mean_subtract:
  assumes a: "addressable g" and pos: "0 < size_bnd g 0 * size_bnd g 1 * size_bnd g 2"
  shows "level_mean (fold (subtract_cell s) (cells_of g) g) = level_mean g - s"
proof -
  let ?g' = "fold (subtract_cell s) (cells_of g) g"
  let ?cs = "idx3 (size_bnd g 0) (size_bnd g 1) (size_bnd g 2)"
  let ?n = "size_bnd g 0 * size_bnd g 1 * size_bnd g 2"
  have sz: "size_bnd ?g' d = size_bnd g d" for d
    by (simp add: subtract_fold_store size_bnd_def)
  have "sum_list (map (\<lambda>c. case c of (i, j, k) \<Rightarrow> bnd_get ?g' (int i + 0) (int j + 0) (int k + 0)) ?cs)
      = sum_list (map (\<lambda>c. (case c of (i, j, k) \<Rightarrow> bnd_get g (int i + 0) (int j + 0) (int k + 0)) + (- s)) ?cs)"
    using subtract_level_cell[OF a]
    by (intro arg_cong[where f = sum_list] map_cong refl) (auto simp: set_idx3)
  also have "\<dots> = sum_list (map (\<lambda>c. case c of (i, j, k) \<Rightarrow> bnd_get g (int i + 0) (int j + 0) (int k + 0)) ?cs)
                    + real ?n * (- s)"
    by (simp only: sum_list_shift length_idx3)
  finally show ?thesis
    using pos by (simp add: level_mean_def box_mean_def sz diff_divide_distrib)
qed

lemma fold_err_subtract:
  assumes "\<forall>i\<in>set ls. i < length (m_pgrids delta)" "distinct ls"
  shows "\<exists>d'. fold_err (subtract_level s) ls delta = Inr d' \<and>
           length (m_pgrids d') = length (m_pgrids delta) \<and>
           m_levelmin d' = m_levelmin delta \<and>
           (\<forall>L < length (m_pgrids delta). m_pgrids d' ! L =
              (if L \<in> set ls
               then fold (subtract_cell s) (cells_of (m_pgrids delta ! L)) (m_pgrids delta ! L)
               else m_pgrids delta ! L))"
  using assms
proof (induction ls arbitrary: delta)
  case Nil
  show ?case by simp
next
  case (Cons x xs)
  let ?d1 = "delta\<lparr>m_pgrids := (m_pgrids delta)[x :=
               fold (subtract_cell s) (cells_of (m_pgrids delta ! x)) (m_pgrids delta ! x)]\<rparr>"
  have x: "x < length (m_pgrids delta)" "x \<notin> set xs" using Cons.prems by simp_all
  have step: "subtract_level s x delta = Inr ?d1"
    using x by (simp add: subtract_level_def get_grid_def)
  have "\<forall>i\<in>set xs. i < length (m_pgrids ?d1)" "distinct xs" using Cons.prems by simp_all
  from Cons.IH[OF this] obtain d' where d': "fold_err (subtract_level s) xs ?d1 = Inr d'"
    "length (m_pgrids d') = length (m_pgrids ?d1)" "m_levelmin d' = m_levelmin ?d1"
    "\<forall>L < length (m_pgrids ?d1). m_pgrids d' ! L =
        (if L \<in> set xs
         then fold (subtract_cell s) (cells_of (m_pgrids ?d1 ! L)) (m_pgrids ?d1 ! L)
         else m_pgrids ?d1 ! L)"
    by blast
  have "m_pgrids d' ! L =
          (if L \<in> set (x # xs)
           then fold (subtract_cell s) (cells_of (m_pgrids delta ! L)) (m_pgrids delta ! L)
           else m_pgrids delta ! L)" if "L < length (m_pgrids delta)" for L
  proof (cases "L = x")
    case True
    then show ?thesis using d'(4) x that by simp
  next
    case False
    then show ?thesis using d'(4) that by simp
  qed
  then show ?case using step d'(1-3) by simp
qed

section \<open>The values cut_patch writes\<close>

lemma sint_add_small:
  fixes ox :: "32 word"
  assumes "- (2 ^ 31) \<le> int i + sint ox" "int i + sint ox < 2 ^ 31"
  shows "sint (word_of_nat i + ox) = int i + sint ox"
proof -
  have ox: "sint ox = signed_take_bit 31 (sint ox)"
    using sint_ge[of ox] sint_lt[of ox] by (simp add: signed_take_bit_int_eq_self)
  have "sint (word_of_nat i + ox) = signed_take_bit 31 (signed_take_bit 31 (int i) + sint ox)"
    by (simp add: sint_word_ariths signed_of_nat)
  also have "\<dots> = signed_take_bit 31 (signed_take_bit 31 (int i) + signed_take_bit 31 (sint ox))"
    using ox by simp
  also have "\<dots> = signed_take_bit 31 (int i + sint ox)"
    by (rule signed_take_bit_add)
  also have "\<dots> = int i + sint ox"
    using assms by (simp add: signed_take_bit_int_eq_self)
  finally show ?thesis .
qed


lemma inside_cell:
  assumes "inside g (ox, oy, oz) hx hy hz" "i < hx" "j < hy" "k < hz"
  shows "sint (word_of_nat i + ox) = int i + sint ox"
    and "sint (word_of_nat j + oy) = int j + sint oy"
    and "sint (word_of_nat k + oz) = int k + sint oz"
    and "0 \<le> int j + sint oy + int (m_nbnd g) \<and> int j + sint oy + int (m_nbnd g) < int (m_ny g)"
    and "0 \<le> int k + sint oz + int (m_nbnd g) \<and> int k + sint oz + int (m_nbnd g) < int (m_nz g)"
proof -
  have b: "m_nx g < 2 ^ 31" "m_ny g < 2 ^ 31" "m_nz g < 2 ^ 31"
    "- int (m_nbnd g) \<le> sint ox" "sint ox + int hx + int (m_nbnd g) \<le> int (m_nx g)"
    "- int (m_nbnd g) \<le> sint oy" "sint oy + int hy + int (m_nbnd g) \<le> int (m_ny g)"
    "- int (m_nbnd g) \<le> sint oz" "sint oz + int hz + int (m_nbnd g) \<le> int (m_nz g)"
    using assms(1) by (simp_all add: inside_def)
  have lo: "- (2 ^ 31) \<le> sint ox" "- (2 ^ 31) \<le> sint oy" "- (2 ^ 31) \<le> sint oz"
    using sint_ge[of ox] sint_ge[of oy] sint_ge[of oz] by simp_all
  have n: "int (m_nx g) < 2 ^ 31" "int (m_ny g) < 2 ^ 31" "int (m_nz g) < 2 ^ 31"
    using b(1-3) by simp_all
  have ix: "- (2 ^ 31) \<le> int i + sint ox" "int i + sint ox < 2 ^ 31"
    using b(5) lo(1) n(1) assms(2) by linarith+
  have iy: "- (2 ^ 31) \<le> int j + sint oy" "int j + sint oy < 2 ^ 31"
    using b(7) lo(2) n(2) assms(3) by linarith+
  have iz: "- (2 ^ 31) \<le> int k + sint oz" "int k + sint oz < 2 ^ 31"
    using b(9) lo(3) n(3) assms(4) by linarith+
  show "sint (word_of_nat i + ox) = int i + sint ox" by (rule sint_add_small[OF ix])
  show "sint (word_of_nat j + oy) = int j + sint oy" by (rule sint_add_small[OF iy])
  show "sint (word_of_nat k + oz) = int k + sint oz" by (rule sint_add_small[OF iz])
  show "0 \<le> int j + sint oy + int (m_nbnd g) \<and> int j + sint oy + int (m_nbnd g) < int (m_ny g)"
    using b(6,7) assms(3) by linarith
  show "0 \<le> int k + sint oz + int (m_nbnd g) \<and> int k + sint oz + int (m_nbnd g) < int (m_nz g)"
    using b(8,9) assms(4) by linarith
qed

lemma fold_copy_cell:
  "fold (copy_cell old dx dy dz) cs (m, s, n) =
     (m\<lparr>m_pdata := fold (\<lambda>c d. d(bnd_index m (u2i (fst c)) (u2i (fst (snd c))) (u2i (snd (snd c))) :=
                bnd_get old (sint (word_of_nat (fst c) + dx)) (sint (word_of_nat (fst (snd c)) + dy))
                  (sint (word_of_nat (snd (snd c)) + dz)))) cs (m_pdata m)\<rparr>,
      s + sum_list (map (\<lambda>c. bnd_get old (sint (word_of_nat (fst c) + dx))
                  (sint (word_of_nat (fst (snd c)) + dy)) (sint (word_of_nat (snd (snd c)) + dz))) cs),
      n + length cs)"
proof (induction cs arbitrary: m s n)
  case Nil
  show ?case by simp
next
  case (Cons c cs)
  obtain i j k where c: "c = (i, j, k)" by (cases c)
  let ?v = "bnd_get old (sint (word_of_nat i + dx)) (sint (word_of_nat j + dy)) (sint (word_of_nat k + dz))"
  let ?m' = "m\<lparr>m_pdata := (m_pdata m)(bnd_index m (u2i i) (u2i j) (u2i k) := ?v)\<rparr>"
  have step: "copy_cell old dx dy dz c (m, s, n) = (?m', s + ?v, Suc n)"
    by (simp add: copy_cell_def c bnd_set_def bnd_get_def Let_def bnd_index_def)
  have same: "bnd_index ?m' ix iy iz = bnd_index m ix iy iz" for ix iy iz
    by (simp add: bnd_index_def)
  show ?case
    unfolding c fold_Cons comp_apply step[unfolded c] Cons same by simp
qed

lemma fold_coarse_cell:
  "fold (coarse_cell coarse ox oy oz) cs (s, n) =
     (s + sum_list (map (\<lambda>c. bnd_get coarse (sint (word_of_nat (fst c) + ox))
                  (sint (word_of_nat (fst (snd c)) + oy)) (sint (word_of_nat (snd (snd c)) + oz))) cs),
      n + length cs)"
  by (induction cs arbitrary: s n) (simp_all add: coarse_cell_def split: prod.splits)

lemma shift_fine_fold_store:
  "fold (shift_fine_cell nan (Some corr)) cs g =
     g\<lparr>m_pdata := fold (\<lambda>c d. d(bnd_index g (u2i (fst c)) (u2i (fst (snd c))) (u2i (snd (snd c)))
                 := d (bnd_index g (u2i (fst c)) (u2i (fst (snd c))) (u2i (snd (snd c)))) + corr))
                     cs (m_pdata g)\<rparr>"
  by (rule fold_cell_update[where F = "\<lambda>c v. v + corr"])
     (simp add: shift_fine_cell_def bnd_set_def bnd_get_def split: prod.splits)

lemma shift_coarse_fold_store:
  "fold (shift_coarse_cell nan (Some corr) ox oy oz) cs g =
     g\<lparr>m_pdata := fold (\<lambda>c d. d(bnd_index g (sint (word_of_nat (fst c) + ox))
                      (sint (word_of_nat (fst (snd c)) + oy)) (sint (word_of_nat (snd (snd c)) + oz))
                 := d (bnd_index g (sint (word_of_nat (fst c) + ox))
                      (sint (word_of_nat (fst (snd c)) + oy)) (sint (word_of_nat (snd (snd c)) + oz))) - corr))
                     cs (m_pdata g)\<rparr>"
  by (rule fold_cell_update[where F = "\<lambda>c v. v - corr"])
     (simp add: shift_coarse_cell_def bnd_set_def bnd_get_def Let_def split: prod.splits)

text \<open>Distinct cells of a box inside a grid have distinct addresses.\<close>

lemma inside_distinct:
  assumes "inside g (ox, oy, oz) hx hy hz"
  shows "distinct (map (\<lambda>c. bnd_index g (sint (word_of_nat (fst c) + ox))
                      (sint (word_of_nat (fst (snd c)) + oy)) (sint (word_of_nat (snd (snd c)) + oz)))
                     (idx3 hx hy hz))"
proof (rule distinct_addresses)
  fix i j k assume b: "i < hx" "j < hy" "k < hz"
  show "0 \<le> sint (word_of_nat (fst (snd (i, j, k))) + oy) + int (m_nbnd g) \<and>
        sint (word_of_nat (fst (snd (i, j, k))) + oy) + int (m_nbnd g) < int (m_ny g) \<and>
        0 \<le> sint (word_of_nat (snd (snd (i, j, k))) + oz) + int (m_nbnd g) \<and>
        sint (word_of_nat (snd (snd (i, j, k))) + oz) + int (m_nbnd g) < int (m_nz g)"
    using inside_cell[OF assms b] by simp
next
  show "inj_on (\<lambda>c. (sint (word_of_nat (fst c) + ox), sint (word_of_nat (fst (snd c)) + oy),
                     sint (word_of_nat (snd (snd c)) + oz))) (set (idx3 hx hy hz))"
  proof (rule inj_onI)
    fix c c' assume c: "c \<in> set (idx3 hx hy hz)" "c' \<in> set (idx3 hx hy hz)"
      and eq: "(sint (word_of_nat (fst c) + ox), sint (word_of_nat (fst (snd c)) + oy),
                sint (word_of_nat (snd (snd c)) + oz)) =
               (sint (word_of_nat (fst c') + ox), sint (word_of_nat (fst (snd c')) + oy),
                sint (word_of_nat (snd (snd c')) + oz))"
    obtain i j k where c1: "c = (i, j, k)" by (cases c)
    obtain i' j' k' where c2: "c' = (i', j', k')" by (cases c')
    have b: "i < hx" "j < hy" "k < hz" "i' < hx" "j' < hy" "k' < hz"
      using c c1 c2 by (simp_all add: set_idx3)
    show "c = c'"
      using eq inside_cell(1-3)[OF assms b(1-3)] inside_cell(1-3)[OF assms b(4-6)]
      by (simp add: c1 c2)
  qed
qed

text \<open>The special case of the logical cells of a freshly allocated patch.\<close>

lemma inside_new:
  assumes "nx + 2 * b < 2 ^ 31" "ny + 2 * b < 2 ^ 31" "nz + 2 * b < 2 ^ 31"
  shows "inside (MeshvarBnd_new b nx ny nz xo yo zo u) (0, 0, 0) nx ny nz"
  using assms by (simp add: inside_def MeshvarBnd_new_def)

lemma u2i_as_sint: "u2i i = sint (word_of_nat i + (0 :: 32 word))"
  by (simp add: u2i_def)

lemma mean_at_sum:
  "mean_at g start hx hy hz =
     sum_list (map (\<lambda>c. cell_at g start (fst c) (fst (snd c)) (snd (snd c))) (idx3 hx hy hz))
       / real (length (idx3 hx hy hz))"
  by (cases start) (simp add: mean_at_def box_mean_def cell_at_def length_idx3 case_prod_unfold)

lemma sum_over_box:
  assumes "inside g (ox, oy, oz) hx hy hz"
  shows "sum_list (map (\<lambda>c. bnd_get g (sint (word_of_nat (fst c) + ox))
                  (sint (word_of_nat (fst (snd c)) + oy)) (sint (word_of_nat (snd (snd c)) + oz)))
            (idx3 hx hy hz))
         = sum_list (map (\<lambda>c. cell_at g (ox, oy, oz) (fst c) (fst (snd c)) (snd (snd c))) (idx3 hx hy hz))"
proof (intro arg_cong[where f = sum_list] map_cong refl)
  fix c assume "c \<in> set (idx3 hx hy hz)"
  then have b: "fst c < hx" "fst (snd c) < hy" "snd (snd c) < hz"
    by (auto simp: set_idx3)
  show "bnd_get g (sint (word_of_nat (fst c) + ox)) (sint (word_of_nat (fst (snd c)) + oy))
          (sint (word_of_nat (snd (snd c)) + oz))
        = cell_at g (ox, oy, oz) (fst c) (fst (snd c)) (snd (snd c))"
    using inside_cell(1-3)[OF assms b] by (simp add: cell_at_def)
qed

lemma store_after_box_update:
  assumes ins: "inside g (ox, oy, oz) hx hy hz" and b: "i < hx" "j < hy" "k < hz"
  shows "fold (\<lambda>c d. d(bnd_index g (sint (word_of_nat (fst c) + ox))
                      (sint (word_of_nat (fst (snd c)) + oy)) (sint (word_of_nat (snd (snd c)) + oz))
                 := F c (d (bnd_index g (sint (word_of_nat (fst c) + ox))
                      (sint (word_of_nat (fst (snd c)) + oy)) (sint (word_of_nat (snd (snd c)) + oz))))))
            (idx3 hx hy hz) d (bnd_index g (int i + sint ox) (int j + sint oy) (int k + sint oz))
         = F (i, j, k) (d (bnd_index g (int i + sint ox) (int j + sint oy) (int k + sint oz)))"
proof -
  have mem: "(i, j, k) \<in> set (idx3 hx hy hz)" using b by (simp add: set_idx3)
  show ?thesis
    using fold_store_at[where F = F and d = d, OF inside_distinct[OF ins] mem]
      inside_cell(1-3)[OF ins b]
    by simp
qed


lemma box_update_cell:
  assumes ins: "inside g (ox, oy, oz) hx hy hz" and b: "i < hx" "j < hy" "k < hz"
  shows "cell_at (g\<lparr>m_pdata := fold (\<lambda>c d. d(bnd_index g (sint (word_of_nat (fst c) + ox))
                      (sint (word_of_nat (fst (snd c)) + oy)) (sint (word_of_nat (snd (snd c)) + oz))
                 := F c (d (bnd_index g (sint (word_of_nat (fst c) + ox))
                      (sint (word_of_nat (fst (snd c)) + oy)) (sint (word_of_nat (snd (snd c)) + oz))))))
            (idx3 hx hy hz) (m_pdata g)\<rparr>) (ox, oy, oz) i j k
         = F (i, j, k) (cell_at g (ox, oy, oz) i j k)"
  using store_after_box_update[OF ins b, where F = F and d = "m_pdata g"]
  by (simp add: cell_at_def bnd_get_def bnd_index_def)

lemma mean_at_cong:
  assumes "\<And>i j k. i < hx \<Longrightarrow> j < hy \<Longrightarrow> k < hz \<Longrightarrow> cell_at g' st' i j k = cell_at g st i j k + t"
    and "0 < hx * hy * hz"
  shows "mean_at g' st' hx hy hz = mean_at g st hx hy hz + t"
proof -
  have "sum_list (map (\<lambda>c. cell_at g' st' (fst c) (fst (snd c)) (snd (snd c))) (idx3 hx hy hz))
      = sum_list (map (\<lambda>c. cell_at g st (fst c) (fst (snd c)) (snd (snd c)) + t) (idx3 hx hy hz))"
    using assms(1) by (intro arg_cong[where f = sum_list] map_cong refl) (auto simp: set_idx3)
  also have "\<dots> = sum_list (map (\<lambda>c. cell_at g st (fst c) (fst (snd c)) (snd (snd c))) (idx3 hx hy hz))
                   + real (length (idx3 hx hy hz)) * t"
    by (rule sum_list_shift)
  finally show ?thesis
    using assms(2) by (simp add: mean_at_sum length_idx3 add_divide_distrib)
qed

text \<open>A patch one cell wide: the correction is not a number.\<close>

lemma cut_patch_unit_extent:
  "cell_at (m_pgrids (projr (cut_patch (\<lambda>q. 0) nan 3 2 2 2 1 1 1 True ex_hierarchy)) ! 3)
     (0, 0, 0) 0 0 0 = nan \<and>
   \<not> isl (cut_patch (\<lambda>q. 0) nan 3 2 2 2 1 1 1 True ex_hierarchy)"
proof -
  have i1: "idx3 (unat (1 :: 32 word)) (unat (1 :: 32 word)) (unat (1 :: 32 word)) = [(0, 0, 0)]"
    by (simp add: idx3_def)
  have i0: "idx3 (unat (1 :: 32 word) div 2) (unat (1 :: 32 word) div 2) (unat (1 :: 32 word) div 2) = []"
    by (simp add: idx3_def)
  have lv: "levelmin g < 3" if "m_levelmin g = 2" for g
    using that by (simp add: levelmin_def)
  show ?thesis
    unfolding cut_patch_def Let_def enforce_mean_def i1 i0
    by (simp add: ex_hierarchy_def ex_grid_def levelmin_def levelmax_def copy_cell_def
        shift_fine_cell_def fdiv_def fsub_def cell_at_def bnd_get_def bnd_set_def bnd_index_def
        MeshvarBnd_new_def offset_bnd_def u2i_def)
qed

section \<open>Assignment of hierarchies\<close>

lemma fold_err_append:
  "fold_err f (xs @ ys) s = (case fold_err f xs s of Inl e \<Rightarrow> Inl e | Inr s' \<Rightarrow> fold_err f ys s')"
  by (induction xs arbitrary: s) (simp_all split: sum.splits)

lemma copy_grids_prefix:
  "n \<le> length (m_pgrids gh) \<Longrightarrow>
     fold_err (\<lambda>i gs. case get_grid gh i of Inl e \<Rightarrow> Inl e
                       | Inr g \<Rightarrow> Inr (gs @ [copy_bnd uninit g])) [0..<n] []
       = Inr (map (copy_bnd uninit) (take n (m_pgrids gh)))"
proof (induction n)
  case 0
  show ?case by simp
next
  case (Suc n)
  then have n: "n < length (m_pgrids gh)" by simp
  show ?case
    using Suc.IH n by (simp add: fold_err_append get_grid_def take_Suc_conv_app_nth)
qed

lemma levelmax_nonempty:
  "m_pgrids gh \<noteq> [] \<Longrightarrow> length (m_pgrids gh) < 2 ^ 32 \<Longrightarrow> levelmax gh = length (m_pgrids gh) - 1"
  unfolding levelmax_def
  by (cases "m_pgrids gh") (simp_all add: mod_if)

lemma copy_grids_wf:
  assumes "m_pgrids gh \<noteq> []" "length (m_pgrids gh) < 2 ^ 32"
  shows "copy_grids uninit gh = Inr (map (copy_bnd uninit) (m_pgrids gh))"
proof -
  have "Suc (levelmax gh) = length (m_pgrids gh)"
    using assms levelmax_nonempty[OF assms] by simp
  then show ?thesis
    unfolding copy_grids_def using copy_grids_prefix[of "length (m_pgrids gh)" gh uninit]
    by (simp del: upt_Suc)
qed

lemma copy_grids_empty:
  assumes "m_pgrids gh = []"
  shows "copy_grids uninit gh = Inl (RuntimeError ''Fatal: attempt to access non-existent grid'')"
proof -
  have "[0..<Suc (levelmax gh)] = 0 # [Suc 0..<Suc (levelmax gh)]"
    by (rule upt_conv_Cons) simp
  then show ?thesis
    unfolding copy_grids_def by (simp add: get_grid_def assms del: upt_Suc)
qed

lemma fold_store_copy:
  "fold (\<lambda>i d. d(int i := src (int i))) xs d0 (int k) = (if k \<in> set xs then src (int k) else d0 (int k))"
  by (induction xs arbitrary: d0) simp_all

lemma copy_bnd_is_copy: "is_copy (copy_bnd uninit g) g"
  by (simp add: is_copy_def copy_bnd_def fold_store_copy)

lemma push_masks_fields:
  "m_pgrids (fold (\<lambda>i t. t\<lparr>m_ref_masks := m_ref_masks t @ [F i]\<rparr>) ls t0) = m_pgrids t0 \<and>
   m_levelmin (fold (\<lambda>i t. t\<lparr>m_ref_masks := m_ref_masks t @ [F i]\<rparr>) ls t0) = m_levelmin t0 \<and>
   bhave_refmask (fold (\<lambda>i t. t\<lparr>m_ref_masks := m_ref_masks t @ [F i]\<rparr>) ls t0) = bhave_refmask t0"
  by (induction ls arbitrary: t0) simp_all

lemma is_consistent_grids:
  assumes "m_pgrids t = m_pgrids this" "m_levelmin t = m_levelmin this"
  shows "is_consistent t gh = is_consistent this gh"
  using assms by (simp add: is_consistent_def levelmax_def levelmin_def size_h_def offset_h_def)

lemma assign_rebuilds:
  assumes ne: "m_pgrids gh \<noteq> []" and lt: "length (m_pgrids gh) < 2 ^ 32"
    and mis: "\<not> is_consistent this gh"
  shows "\<exists>t. assign uninit this gh = Inr t \<and>
           m_pgrids t = map (copy_bnd uninit) (m_pgrids gh) \<and>
           m_levelmin t = m_levelmin gh \<and> h_nbnd t = h_nbnd gh \<and>
           m_xoffabs t = m_xoffabs gh \<and> m_yoffabs t = m_yoffabs gh \<and> m_zoffabs t = m_zoffabs gh \<and>
           bhave_refmask t = bhave_refmask gh"
proof -
  define t1 where "t1 = this\<lparr>bhave_refmask := bhave_refmask gh\<rparr>"
  define t2 where "t2 = (if bhave_refmask t1
                then fold (\<lambda>i t. t\<lparr>m_ref_masks := m_ref_masks t @ [m_ref_masks gh ! i]\<rparr>)
                       [0..<Suc (levelmax gh)] t1
                else t1)"
  have f0: "m_pgrids t2 = m_pgrids t1 \<and> m_levelmin t2 = m_levelmin t1 \<and>
            bhave_refmask t2 = bhave_refmask t1"
    unfolding t2_def
    by (cases "bhave_refmask t1") (simp_all only: if_True if_False push_masks_fields simp_thms)
  have f: "m_pgrids t2 = m_pgrids this" "m_levelmin t2 = m_levelmin this"
    "bhave_refmask t2 = bhave_refmask gh"
    using f0 by (simp_all add: t1_def)
  have mis2: "\<not> is_consistent t2 gh"
    using mis is_consistent_grids[OF f(1,2)] by simp
  have "assign uninit this gh =
      Inr (t2\<lparr>m_pgrids := map (copy_bnd uninit) (m_pgrids gh), m_levelmin := levelmin gh,
               h_nbnd := h_nbnd gh, m_xoffabs := m_xoffabs gh,
               m_yoffabs := m_yoffabs gh, m_zoffabs := m_zoffabs gh\<rparr>)"
    unfolding assign_def Let_def t2_def[symmetric] t1_def[symmetric]
    using mis2 by (simp add: copy_grids_wf[OF ne lt])
  then show ?thesis by (simp add: f levelmin_def)
qed


lemma is_consistent_empty_source:
  assumes "m_pgrids gh = []" "wf_hierarchy this"
  shows "\<not> is_consistent this gh"
proof -
  have "levelmax gh = 2 ^ 32 - 1" by (simp add: levelmax_def assms(1))
  moreover have "levelmax this < 2 ^ 32 - 1"
    using levelmax_wf[OF assms(2)] assms(2)
    by (cases "m_pgrids this") (simp_all add: wf_hierarchy_def)
  ultimately show ?thesis by (simp add: is_consistent_def)
qed

lemma assign_empty_source:
  assumes e: "m_pgrids gh = []" "\<not> bhave_refmask gh" and w: "wf_hierarchy this"
  shows "assign uninit this gh = Inl (RuntimeError ''Fatal: attempt to access non-existent grid'')"
proof -
  define t1 where "t1 = this\<lparr>bhave_refmask := bhave_refmask gh\<rparr>"
  have "wf_hierarchy t1" using w by (simp add: t1_def wf_hierarchy_def)
  then have c: "\<not> is_consistent t1 gh" by (rule is_consistent_empty_source[OF e(1)])
  have b: "\<not> bhave_refmask t1" using e(2) by (simp add: t1_def)
  show ?thesis
    unfolding assign_def Let_def t1_def[symmetric]
    using c b by (simp add: copy_grids_empty[OF e(1)])
qed

section \<open>Masks as functions of the cell\<close>

lemma mask_index_less:
  assumes "i < nx" "j < ny" "k < (nz :: nat)"
  shows "(i * ny + j) * nz + k < nx * ny * nz"
proof -
  have "i * ny + j < nx * ny"
  proof -
    have "i * ny + j < i * ny + ny" using assms(2) by simp
    also have "\<dots> = Suc i * ny" by simp
    also have "\<dots> \<le> nx * ny" using assms(1) by (intro mult_le_mono1) simp
    finally show ?thesis .
  qed
  then have "Suc (i * ny + j) \<le> nx * ny" by simp
  then have "Suc (i * ny + j) * nz \<le> nx * ny * nz" by (rule mult_le_mono1)
  moreover have "(i * ny + j) * nz + k < Suc (i * ny + j) * nz" using assms(3) by simp
  ultimately show ?thesis by linarith
qed

lemma mask_index_inj:
  assumes "j < ny" "k < nz" "j' < ny" "k' < (nz :: nat)"
    and "(i * ny + j) * nz + k = (i' * ny + j') * nz + k'"
  shows "i = i' \<and> j = j' \<and> k = k'"
proof -
  have k: "((i * ny + j) * nz + k) mod nz = k" "((i' * ny + j') * nz + k') mod nz = k'"
    using assms(2,4) by simp_all
  have d: "((i * ny + j) * nz + k) div nz = i * ny + j" "((i' * ny + j') * nz + k') div nz = i' * ny + j'"
    using assms(2,4) by simp_all
  have kk: "k = k'" using k assms(5) by simp
  have e: "i * ny + j = i' * ny + j'" using d assms(5) by simp
  have "(i * ny + j) mod ny = j" "(i' * ny + j') mod ny = j'" using assms(1,3) by simp_all
  then have jj: "j = j'" using e by simp
  have "(i * ny + j) div ny = i" "(i' * ny + j') div ny = i'" using assms(1,3) by simp_all
  then have "i = i'" using e by simp
  then show ?thesis using jj kk by simp
qed

lemma mask_ok_set [simp]: "mask_ok (mask_set m i j k v) nx ny nz = mask_ok m nx ny nz"
  by (simp add: mask_ok_def mask_set_def)

lemma mask_get_set:
  assumes "mask_ok m nx ny nz" "i < nx" "j < ny" "k < nz" "j' < ny" "k' < nz"
  shows "mask_get (mask_set m i j k v) i' j' k' =
           (if i' = i \<and> j' = j \<and> k' = k then v else mask_get m i' j' k')"
proof (cases "i' = i \<and> j' = j \<and> k' = k")
  case True
  then show ?thesis
    using assms mask_index_less[OF assms(2-4)]
    by (simp add: mask_get_def mask_set_def mask_index_def mask_ok_def)
next
  case False
  have "(i * ny + j) * nz + k \<noteq> (i' * ny + j') * nz + k'"
    using mask_index_inj[OF assms(3,4,5,6), of i i'] False by auto
  then have "mask_get (mask_set m i j k v) i' j' k' = mask_get m i' j' k'"
    using assms(1) by (simp add: mask_get_def mask_set_def mask_index_def mask_ok_def)
  then show ?thesis using False by auto
qed

text \<open>The eight writes of a block.\<close>

lemma mask_ok_set8 [simp]: "mask_ok (set8 m i j k v) nx ny nz = mask_ok m nx ny nz"
  by (simp add: set8_def corners_def)

lemma mask_get_set8:
  assumes ok: "mask_ok m nx ny nz" and b: "Suc i < nx" "Suc j < ny" "Suc k < nz"
    and c: "y < ny" "z < nz"
  shows "mask_get (set8 m i j k v) x y z =
           (if (x = i \<or> x = Suc i) \<and> (y = j \<or> y = Suc j) \<and> (z = k \<or> z = Suc k) then v
            else mask_get m x y z)"
proof -
  have i: "i < nx" "j < ny" "k < nz" using b by simp_all
  note s = mask_get_set[where nx = nx and ny = ny and nz = nz and j' = y and k' = z, OF _ _ _ _ c]
  show ?thesis
    unfolding set8_def corners_def
    using ok b i by (auto simp: s)
qed

lemma any8_iff:
  "any8 m i j k \<longleftrightarrow> (\<exists>a \<le> 1. \<exists>b \<le> 1. \<exists>d \<le> 1. mask_get m (i + a) (j + b) (k + d) > 0)"
proof -
  have le1: "(\<exists>a \<le> (1 :: nat). P a) \<longleftrightarrow> P 0 \<or> P 1" for P
    by (metis le_numeral_extra(4) less_one linorder_not_le nat_less_le zero_le)
  show ?thesis
    unfolding le1 by (simp add: any8_def corners_def)
qed

section \<open>The first pass\<close>

lemma block_iff: "even i \<Longrightarrow> (x = i \<or> x = Suc i) \<longleftrightarrow> 2 * (x div 2) = i"
  by presburger

lemma evens_mem: "even n \<Longrightarrow> i \<in> set (evens n) \<longleftrightarrow> even i \<and> i < n"
proof -
  assume n: "even n"
  show ?thesis
  proof
    assume "i \<in> set (evens n)"
    then obtain t where "i = 2 * t" "t < (n + 1) div 2" by (auto simp: evens_def)
    then show "even i \<and> i < n" using n by presburger
  next
    assume a: "even i \<and> i < n"
    have 1: "i = 2 * (i div 2)" using a by presburger
    have 2: "i div 2 < (n + 1) div 2" using a n by presburger
    show "i \<in> set (evens n)" unfolding evens_def set_map
      by (rule image_eqI[where x = "i div 2"]) (use 1 2 in simp_all)
  qed
qed

lemma even_Suc_less: "even a \<and> a < n \<Longrightarrow> even n \<Longrightarrow> Suc a < n"
  by presburger

lemma fold_blocks_ok [simp]:
  "mask_ok (fold (\<lambda>c m. case c of (i, j, k) \<Rightarrow> set8 m i j k (V i j k)) cs m) nx ny nz
     = mask_ok m nx ny nz"
  by (induction cs arbitrary: m) (simp_all split: prod.splits)

lemma fold_blocks:
  assumes "mask_ok m nx ny nz"
    and "\<forall>c \<in> set cs. even (fst c) \<and> even (fst (snd c)) \<and> even (snd (snd c)) \<and>
           Suc (fst c) < nx \<and> Suc (fst (snd c)) < ny \<and> Suc (snd (snd c)) < nz"
    and "y < ny" "z < nz"
  shows "mask_get (fold (\<lambda>c m. case c of (i, j, k) \<Rightarrow> set8 m i j k (V i j k)) cs m) x y z =
           (if (2 * (x div 2), 2 * (y div 2), 2 * (z div 2)) \<in> set cs
            then V (2 * (x div 2)) (2 * (y div 2)) (2 * (z div 2)) else mask_get m x y z)"
  using assms
proof (induction cs arbitrary: m)
  case Nil
  then show ?case by simp
next
  case (Cons c cs)
  obtain i j k where c: "c = (i, j, k)" by (cases c)
  have b: "even i" "even j" "even k" "Suc i < nx" "Suc j < ny" "Suc k < nz"
    using Cons.prems(2) by (simp_all add: c)
  have ok': "mask_ok (set8 m i j k (V i j k)) nx ny nz" using Cons.prems(1) by simp
  have rest: "\<forall>c \<in> set cs. even (fst c) \<and> even (fst (snd c)) \<and> even (snd (snd c)) \<and>
           Suc (fst c) < nx \<and> Suc (fst (snd c)) < ny \<and> Suc (snd (snd c)) < nz"
    using Cons.prems(2) by simp
  note ih = Cons.IH[OF ok' rest Cons.prems(3,4)]
  have g: "mask_get (set8 m i j k (V i j k)) x y z =
      (if 2 * (x div 2) = i \<and> 2 * (y div 2) = j \<and> 2 * (z div 2) = k then V i j k
       else mask_get m x y z)"
    using mask_get_set8[OF Cons.prems(1) b(4-6) Cons.prems(3,4), where x = x and v = "V i j k"]
    by (simp only: block_iff[OF b(1)] block_iff[OF b(2)] block_iff[OF b(3)])
  have eq: "fold (\<lambda>c m. case c of (i, j, k) \<Rightarrow> set8 m i j k (V i j k)) (c # cs) m =
      fold (\<lambda>c m. case c of (i, j, k) \<Rightarrow> set8 m i j k (V i j k)) cs (set8 m i j k (V i j k))"
    by (simp add: c)
  show ?case
    unfolding eq ih g by (auto simp: c)
qed

lemma size_h_cong: "m_pgrids gh' = m_pgrids gh \<Longrightarrow> size_h gh' l d = size_h gh l d"
  by (simp add: size_h_def)

lemma offset_h_cong: "m_pgrids gh' = m_pgrids gh \<Longrightarrow> offset_h gh' l d = offset_h gh l d"
  by (simp add: offset_h_def)

lemma flag_level_fields [simp]:
  "m_pgrids (flag_level q l gh) = m_pgrids gh"
  "m_levelmin (flag_level q l gh) = m_levelmin gh"
  "bhave_refmask (flag_level q l gh) = bhave_refmask gh"
  "length (m_ref_masks (flag_level q l gh)) = length (m_ref_masks gh)"
  by (simp_all add: flag_level_def Let_def)

lemma flag_level_other: "l' \<noteq> l \<Longrightarrow> m_ref_masks (flag_level q l gh) ! l' = m_ref_masks gh ! l'"
  by (simp add: flag_level_def Let_def)

lemma flag_level_at:
  assumes l: "l < length (m_ref_masks gh)"
    and ev: "even (size_h gh l 0)" "even (size_h gh l 1)" "even (size_h gh l 2)"
  shows "first_pass_mask q gh l (m_ref_masks (flag_level q l gh) ! l)"
proof -
  define nx ny nz where "nx = size_h gh l 0" and "ny = size_h gh l 1" and "nz = size_h gh l 2"
  define m0 where "m0 = mask_init nx ny nz 0 (m_ref_masks gh ! l)"
  define bl where "bl = List.product (evens nx) (List.product (evens ny) (evens nz))"
  define V where "V = (\<lambda>i j k. if q l i j k \<or> int l = u2i (levelmin gh) then 1 else - 1 :: int)"
  have ok0: "mask_ok m0 nx ny nz" by (simp add: m0_def mask_init_def mask_ok_def)
  have f: "flag_block q (levelmin gh) l = (\<lambda>c m. case c of (i, j, k) \<Rightarrow> set8 m i j k (V i j k))"
    by (intro ext) (simp add: flag_block_def V_def)
  have res: "m_ref_masks (flag_level q l gh) ! l =
      fold (\<lambda>c m. case c of (i, j, k) \<Rightarrow> set8 m i j k (V i j k)) bl m0"
    using l unfolding flag_level_def Let_def nx_def[symmetric] ny_def[symmetric] nz_def[symmetric]
      m0_def[symmetric] bl_def[symmetric] f by simp
  have e: "even nx" "even ny" "even nz" using ev by (simp_all add: nx_def ny_def nz_def)
  have blocks: "\<forall>c \<in> set bl. even (fst c) \<and> even (fst (snd c)) \<and> even (snd (snd c)) \<and>
           Suc (fst c) < nx \<and> Suc (fst (snd c)) < ny \<and> Suc (snd (snd c)) < nz"
  proof
    fix c assume "c \<in> set bl"
    then have m: "fst c \<in> set (evens nx)" "fst (snd c) \<in> set (evens ny)"
      "snd (snd c) \<in> set (evens nz)"
      by (auto simp: bl_def)
    have 1: "even (fst c) \<and> fst c < nx" using m(1) by (simp only: evens_mem[OF e(1)])
    have 2: "even (fst (snd c)) \<and> fst (snd c) < ny" using m(2) by (simp only: evens_mem[OF e(2)])
    have 3: "even (snd (snd c)) \<and> snd (snd c) < nz" using m(3) by (simp only: evens_mem[OF e(3)])
    show "even (fst c) \<and> even (fst (snd c)) \<and> even (snd (snd c)) \<and>
           Suc (fst c) < nx \<and> Suc (fst (snd c)) < ny \<and> Suc (snd (snd c)) < nz"
      using 1 2 3 even_Suc_less[OF 1 e(1)] even_Suc_less[OF 2 e(2)] even_Suc_less[OF 3 e(3)]
      by blast
  qed
  have half: "even (2 * (x div 2)) \<and> 2 * (x div 2) < n" if "x < n" for x n :: nat
    using that by presburger
  have mem: "(2 * (x div 2), 2 * (y div 2), 2 * (z div 2)) \<in> set bl"
    if "x < nx" "y < ny" "z < nz" for x y z
  proof -
    have "2 * (x div 2) \<in> set (evens nx)" "2 * (y div 2) \<in> set (evens ny)"
      "2 * (z div 2) \<in> set (evens nz)"
      using half[OF that(1)] half[OF that(2)] half[OF that(3)]
      by (simp_all only: evens_mem[OF e(1)] evens_mem[OF e(2)] evens_mem[OF e(3)])
    then show ?thesis
      unfolding bl_def by simp
  qed
  show ?thesis
    unfolding first_pass_mask_def nx_def[symmetric] ny_def[symmetric] nz_def[symmetric] res
  proof (intro conjI allI impI)
    show "mask_ok (fold (\<lambda>c m. case c of (i, j, k) \<Rightarrow> set8 m i j k (V i j k)) bl m0) nx ny nz"
      using ok0 by simp
  next
    fix x y z assume b: "x < nx" "y < ny" "z < nz"
    show "mask_get (fold (\<lambda>c m. case c of (i, j, k) \<Rightarrow> set8 m i j k (V i j k)) bl m0) x y z =
        (if q l (2 * (x div 2)) (2 * (y div 2)) (2 * (z div 2)) \<or> int l = u2i (levelmin gh)
         then 1 else - 1)"
      using fold_blocks[OF ok0 blocks b(2,3), where V = V and x = x] mem[OF b] by (simp add: V_def)
  qed
qed

section \<open>The first pass on all levels\<close>

lemma levels_upt: "map nat [int a..int b] = [a..<Suc b]"
proof (induction b)
  case 0
  show ?case by (cases "a = 0") (simp_all add: upto.simps)
next
  case (Suc b)
  show ?case
  proof (cases "a \<le> Suc b")
    case True
    then have "[int a..int (Suc b)] = [int a..int b] @ [int (Suc b)]"
      using upto_rec2[of "int a" "int (Suc b)"] by simp
    then show ?thesis using Suc True by simp
  next
    case False
    then show ?thesis by simp
  qed
qed

lemma levels_upt_less: "map nat [int a..int b - 1] = [a..<b]"
proof (cases b)
  case 0
  then show ?thesis by simp
next
  case (Suc n)
  then show ?thesis using levels_upt[of a n] by simp
qed

lemma first_pass_mask_cong:
  "m_pgrids gh' = m_pgrids gh \<Longrightarrow> m_levelmin gh' = m_levelmin gh \<Longrightarrow>
     first_pass_mask q gh' l m = first_pass_mask q gh l m"
  by (simp add: first_pass_mask_def size_h_def levelmin_def)

lemma fold_flag_level_fields [simp]:
  "m_pgrids (fold (flag_level q) ls gh) = m_pgrids gh"
  "m_levelmin (fold (flag_level q) ls gh) = m_levelmin gh"
  "bhave_refmask (fold (flag_level q) ls gh) = bhave_refmask gh"
  "length (m_ref_masks (fold (flag_level q) ls gh)) = length (m_ref_masks gh)"
  by (induction ls arbitrary: gh) simp_all

lemma fold_flag_level_other:
  "l \<notin> set ls \<Longrightarrow> m_ref_masks (fold (flag_level q) ls gh) ! l = m_ref_masks gh ! l"
  by (induction ls arbitrary: gh) (simp_all add: flag_level_other)

lemma fold_flag_level_at:
  assumes "distinct ls" "l \<in> set ls" "l < length (m_ref_masks gh)"
    and "even (size_h gh l 0)" "even (size_h gh l 1)" "even (size_h gh l 2)"
  shows "first_pass_mask q gh l (m_ref_masks (fold (flag_level q) ls gh) ! l)"
  using assms
proof (induction ls arbitrary: gh)
  case Nil
  then show ?case by simp
next
  case (Cons a ls)
  let ?g = "flag_level q a gh"
  have sz: "size_h ?g l d = size_h gh l d" for d by (simp add: size_h_def)
  show ?case
  proof (cases "l = a")
    case True
    then have "l \<notin> set ls" using Cons.prems(1) by simp
    then have "m_ref_masks (fold (flag_level q) (a # ls) gh) ! l = m_ref_masks ?g ! l"
      by (simp add: fold_flag_level_other)
    then show ?thesis
      using flag_level_at[OF Cons.prems(3-6), of q] True by simp
  next
    case False
    then have "l \<in> set ls" using Cons.prems(2) by simp
    moreover have "distinct ls" using Cons.prems(1) by simp
    moreover have "l < length (m_ref_masks ?g)" using Cons.prems(3) by simp
    ultimately have "first_pass_mask q ?g l (m_ref_masks (fold (flag_level q) ls ?g) ! l)"
      using Cons.prems(4-6) by (intro Cons.IH) (simp_all only: sz)
    then show ?thesis
      by (simp add: first_pass_mask_cong[of ?g gh])
  qed
qed

section \<open>The second pass on one cell\<close>

lemma first_child_cong: "m_pgrids gh' = m_pgrids gh \<Longrightarrow> first_child gh' L c = first_child gh L c"
  by (simp add: first_child_def offset_h_def)

lemma child_in_bounds_cong:
  "m_pgrids gh' = m_pgrids gh \<Longrightarrow> child_in_bounds gh' L c = child_in_bounds gh L c"
  by (simp add: child_in_bounds_def first_child_cong[of gh' gh] size_h_def)

lemma is_child_cong: "m_pgrids gh' = m_pgrids gh \<Longrightarrow> is_child gh' L c f = is_child gh L c f"
  by (simp add: is_child_def first_child_cong[of gh' gh])

lemma refine_cell_unfold:
  "refine_cell L (i, j, k) gh =
     (if cell_flagged gh L (i, j, k)
      then gh\<lparr>m_ref_masks :=
             ((m_ref_masks gh)[L := mask_set (m_ref_masks gh ! L) i j k 2])
               [Suc L := set8 (((m_ref_masks gh)[L := mask_set (m_ref_masks gh ! L) i j k 2]) ! Suc L)
                           (nat (fst (first_child gh L (i, j, k))))
                           (nat (fst (snd (first_child gh L (i, j, k)))))
                           (nat (snd (snd (first_child gh L (i, j, k))))) 1]\<rparr>
      else gh)"
  by (simp add: refine_cell_def cell_flagged_def child_in_bounds_def first_child_def Let_def)

lemma refine_cell_fields [simp]:
  "m_pgrids (refine_cell L c gh) = m_pgrids gh"
  "m_levelmin (refine_cell L c gh) = m_levelmin gh"
  "bhave_refmask (refine_cell L c gh) = bhave_refmask gh"
  "length (m_ref_masks (refine_cell L c gh)) = length (m_ref_masks gh)"
  by (cases c; simp add: refine_cell_unfold)+

lemma refine_cell_other:
  "l \<noteq> L \<Longrightarrow> l \<noteq> Suc L \<Longrightarrow> m_ref_masks (refine_cell L c gh) ! l = m_ref_masks gh ! l"
  by (cases c) (simp add: refine_cell_unfold)

lemma refine_cell_masks:
  assumes "L < length (m_ref_masks gh)" "Suc L < length (m_ref_masks gh)"
    and "cell_flagged gh L (i, j, k)"
  shows "m_ref_masks (refine_cell L (i, j, k) gh) ! L = mask_set (m_ref_masks gh ! L) i j k 2"
    and "m_ref_masks (refine_cell L (i, j, k) gh) ! Suc L =
           set8 (m_ref_masks gh ! Suc L)
             (nat (fst (first_child gh L (i, j, k))))
             (nat (fst (snd (first_child gh L (i, j, k)))))
             (nat (snd (snd (first_child gh L (i, j, k))))) 1"
  using assms by (simp_all add: refine_cell_unfold)

lemma refine_cell_unflagged:
  "\<not> cell_flagged gh L (i, j, k) \<Longrightarrow> refine_cell L (i, j, k) gh = gh"
  by (simp add: refine_cell_unfold)

lemma masks_fit_cong:
  "m_pgrids gh' = m_pgrids gh \<Longrightarrow> m_ref_masks gh' ! l = m_ref_masks gh ! l \<Longrightarrow>
   length (m_ref_masks gh') = length (m_ref_masks gh) \<Longrightarrow> masks_fit gh' l = masks_fit gh l"
  by (simp add: masks_fit_def size_h_def)

lemma refine_cell_fit:
  assumes "masks_fit gh l"
  shows "masks_fit (refine_cell L c gh) l"
proof -
  obtain i j k where c: "c = (i, j, k)" by (cases c)
  have len: "l < length (m_ref_masks gh)" using assms by (simp add: masks_fit_def)
  have "mask_ok (m_ref_masks (refine_cell L (i, j, k) gh) ! l) nx ny nz
          = mask_ok (m_ref_masks gh ! l) nx ny nz" for nx ny nz
    using len by (cases "l = L"; cases "l = Suc L") (simp_all add: refine_cell_unfold)
  then show ?thesis
    using assms by (simp add: masks_fit_def size_h_def c)
qed

text \<open>A first child inside an even extent has its neighbour inside too.\<close>

lemma child_block:
  assumes "child_in_bounds gh L (i, j, k)"
    and "even (size_h gh (Suc L) 0)" "even (size_h gh (Suc L) 1)" "even (size_h gh (Suc L) 2)"
    and "size_h gh (Suc L) 0 < 2 ^ 31" "size_h gh (Suc L) 1 < 2 ^ 31" "size_h gh (Suc L) 2 < 2 ^ 31"
  shows "0 \<le> fst (first_child gh L (i, j, k)) \<and>
         Suc (nat (fst (first_child gh L (i, j, k)))) < size_h gh (Suc L) 0"
    and "0 \<le> fst (snd (first_child gh L (i, j, k))) \<and>
         Suc (nat (fst (snd (first_child gh L (i, j, k))))) < size_h gh (Suc L) 1"
    and "0 \<le> snd (snd (first_child gh L (i, j, k))) \<and>
         Suc (nat (snd (snd (first_child gh L (i, j, k))))) < size_h gh (Suc L) 2"
proof -
  have p: "0 \<le> a \<and> Suc (nat a) < n" if "0 \<le> a" "a < int n" "even a" "even n" for a n
    using that by presburger
  have e: "even (fst (first_child gh L (i, j, k)))" "even (fst (snd (first_child gh L (i, j, k))))"
    "even (snd (snd (first_child gh L (i, j, k))))"
    by (simp_all add: first_child_def)
  have u: "u2i (size_h gh (Suc L) 0) = int (size_h gh (Suc L) 0)"
    "u2i (size_h gh (Suc L) 1) = int (size_h gh (Suc L) 1)"
    "u2i (size_h gh (Suc L) 2) = int (size_h gh (Suc L) 2)"
    using assms(5-7) by (simp_all add: u2i_small)
  have b: "0 \<le> fst (first_child gh L (i, j, k))"
    "fst (first_child gh L (i, j, k)) < int (size_h gh (Suc L) 0)"
    "0 \<le> fst (snd (first_child gh L (i, j, k)))"
    "fst (snd (first_child gh L (i, j, k))) < int (size_h gh (Suc L) 1)"
    "0 \<le> snd (snd (first_child gh L (i, j, k)))"
    "snd (snd (first_child gh L (i, j, k))) < int (size_h gh (Suc L) 2)"
    using assms(1) unfolding child_in_bounds_def u by (simp_all add: case_prod_unfold)
  show "0 \<le> fst (first_child gh L (i, j, k)) \<and>
         Suc (nat (fst (first_child gh L (i, j, k)))) < size_h gh (Suc L) 0"
    by (rule p[OF b(1,2) e(1) assms(2)])
  show "0 \<le> fst (snd (first_child gh L (i, j, k))) \<and>
         Suc (nat (fst (snd (first_child gh L (i, j, k))))) < size_h gh (Suc L) 1"
    by (rule p[OF b(3,4) e(2) assms(3)])
  show "0 \<le> snd (snd (first_child gh L (i, j, k))) \<and>
         Suc (nat (snd (snd (first_child gh L (i, j, k))))) < size_h gh (Suc L) 2"
    by (rule p[OF b(5,6) e(3) assms(4)])
qed

lemma pass_ready_facts:
  assumes "pass_ready gh L"
  shows "masks_fit gh L" "masks_fit gh (Suc L)"
    "even (size_h gh (Suc L) 0)" "even (size_h gh (Suc L) 1)" "even (size_h gh (Suc L) 2)"
    "size_h gh (Suc L) 0 < 2 ^ 31" "size_h gh (Suc L) 1 < 2 ^ 31" "size_h gh (Suc L) 2 < 2 ^ 31"
    "size_h gh L 0 < 2 ^ 31" "size_h gh L 1 < 2 ^ 31" "size_h gh L 2 < 2 ^ 31"
    "L < length (m_ref_masks gh)" "Suc L < length (m_ref_masks gh)"
    "mask_ok (m_ref_masks gh ! L) (size_h gh L 0) (size_h gh L 1) (size_h gh L 2)"
    "mask_ok (m_ref_masks gh ! Suc L) (size_h gh (Suc L) 0) (size_h gh (Suc L) 1) (size_h gh (Suc L) 2)"
  using assms by (simp_all add: pass_ready_def masks_fit_def)

lemma pass_ready_refine_cell: "pass_ready gh L \<Longrightarrow> pass_ready (refine_cell M c gh) L"
  by (simp add: pass_ready_def refine_cell_fit size_h_def)

lemma level_cell_cong: "m_pgrids gh' = m_pgrids gh \<Longrightarrow> level_cell gh' L c = level_cell gh L c"
  by (simp add: level_cell_def size_h_def)

lemma refine_cell_get_coarse:
  assumes r: "pass_ready gh L" and c: "level_cell gh L (i, j, k)"
    and b: "y < size_h gh L 1" "z < size_h gh L 2"
  shows "mask_get (m_ref_masks (refine_cell L (i, j, k) gh) ! L) x y z =
           (if cell_flagged gh L (i, j, k) \<and> x = i \<and> y = j \<and> z = k then 2
            else mask_get (m_ref_masks gh ! L) x y z)"
proof (cases "cell_flagged gh L (i, j, k)")
  case False
  then show ?thesis by (simp add: refine_cell_unflagged)
next
  case True
  note f = pass_ready_facts[OF r]
  have c': "i < size_h gh L 0" "j < size_h gh L 1" "k < size_h gh L 2"
    using c by (simp_all add: level_cell_def)
  show ?thesis
    unfolding refine_cell_masks(1)[OF f(12,13) True]
    using mask_get_set[OF f(14) c' b, of 2 x] True by simp
qed

lemma child_coord: "0 \<le> a \<Longrightarrow> (x = nat a \<or> x = Suc (nat a)) \<longleftrightarrow> (int x = a \<or> int x = a + 1)"
  by auto

lemma refine_cell_get_fine:
  assumes r: "pass_ready gh L" and b: "y < size_h gh (Suc L) 1" "z < size_h gh (Suc L) 2"
  shows "mask_get (m_ref_masks (refine_cell L (i, j, k) gh) ! Suc L) x y z =
           (if cell_flagged gh L (i, j, k) \<and> is_child gh L (i, j, k) (x, y, z) then 1
            else mask_get (m_ref_masks gh ! Suc L) x y z)"
proof (cases "cell_flagged gh L (i, j, k)")
  case False
  then show ?thesis by (simp add: refine_cell_unflagged)
next
  case True
  note f = pass_ready_facts[OF r]
  have inb: "child_in_bounds gh L (i, j, k)" using True by (simp add: cell_flagged_def)
  note cb = child_block[OF inb f(3-8)]
  have cx: "(x = nat (fst (first_child gh L (i, j, k))) \<or> x = Suc (nat (fst (first_child gh L (i, j, k)))))
      \<longleftrightarrow> (int x = fst (first_child gh L (i, j, k)) \<or> int x = fst (first_child gh L (i, j, k)) + 1)"
    using cb(1) by (intro child_coord) simp
  have cy: "(y = nat (fst (snd (first_child gh L (i, j, k)))) \<or> y = Suc (nat (fst (snd (first_child gh L (i, j, k))))))
      \<longleftrightarrow> (int y = fst (snd (first_child gh L (i, j, k))) \<or> int y = fst (snd (first_child gh L (i, j, k))) + 1)"
    using cb(2) by (intro child_coord) simp
  have cz: "(z = nat (snd (snd (first_child gh L (i, j, k)))) \<or> z = Suc (nat (snd (snd (first_child gh L (i, j, k))))))
      \<longleftrightarrow> (int z = snd (snd (first_child gh L (i, j, k))) \<or> int z = snd (snd (first_child gh L (i, j, k))) + 1)"
    using cb(3) by (intro child_coord) simp
  have ch: "is_child gh L (i, j, k) (x, y, z) \<longleftrightarrow>
      (int x = fst (first_child gh L (i, j, k)) \<or> int x = fst (first_child gh L (i, j, k)) + 1) \<and>
      (int y = fst (snd (first_child gh L (i, j, k))) \<or> int y = fst (snd (first_child gh L (i, j, k))) + 1) \<and>
      (int z = snd (snd (first_child gh L (i, j, k))) \<or> int z = snd (snd (first_child gh L (i, j, k))) + 1)"
    by (simp add: is_child_def case_prod_unfold)
  have cb': "Suc (nat (fst (first_child gh L (i, j, k)))) < size_h gh (Suc L) 0"
    "Suc (nat (fst (snd (first_child gh L (i, j, k))))) < size_h gh (Suc L) 1"
    "Suc (nat (snd (snd (first_child gh L (i, j, k))))) < size_h gh (Suc L) 2"
    using cb by simp_all
  show ?thesis
    unfolding refine_cell_masks(2)[OF f(12,13) True] mask_get_set8[OF f(15) cb' b] cx cy cz ch
    using True by simp
qed

section \<open>The second pass on one level\<close>

lemma parent_unique:
  fixes i i' :: nat and ofs :: int
  assumes "0 \<le> 2 * int i' - 2 * ofs" "a \<le> 1"
    and "int (nat (2 * int i' - 2 * ofs) + a) = 2 * int i - 2 * ofs \<or>
         int (nat (2 * int i' - 2 * ofs) + a) = 2 * int i - 2 * ofs + 1"
  shows "i = i'"
  using assms by auto

lemma child_of_unique:
  assumes r: "pass_ready gh L" and c: "level_cell gh L (i, j, k)" and c': "level_cell gh L (i', j', k')"
    and inb: "child_in_bounds gh L (i', j', k')" and a: "a \<le> 1" "b \<le> 1" "d \<le> 1"
    and ch: "is_child gh L (i, j, k)
               (nat (fst (first_child gh L (i', j', k'))) + a,
                nat (fst (snd (first_child gh L (i', j', k')))) + b,
                nat (snd (snd (first_child gh L (i', j', k')))) + d)"
  shows "i = i' \<and> j = j' \<and> k = k'"
proof -
  note f = pass_ready_facts[OF r]
  have u: "u2i i = int i" "u2i j = int j" "u2i k = int k" "u2i i' = int i'" "u2i j' = int j'"
    "u2i k' = int k'"
    using c c' f(9-11) by (simp_all add: level_cell_def u2i_small)
  have fc: "first_child gh L (i, j, k) =
      (2 * int i - 2 * sint (offset_h gh (Suc L) 0), 2 * int j - 2 * sint (offset_h gh (Suc L) 1),
       2 * int k - 2 * sint (offset_h gh (Suc L) 2))"
    "first_child gh L (i', j', k') =
      (2 * int i' - 2 * sint (offset_h gh (Suc L) 0), 2 * int j' - 2 * sint (offset_h gh (Suc L) 1),
       2 * int k' - 2 * sint (offset_h gh (Suc L) 2))"
    by (simp_all add: first_child_def u)
  have nn: "0 \<le> 2 * int i' - 2 * sint (offset_h gh (Suc L) 0)"
    "0 \<le> 2 * int j' - 2 * sint (offset_h gh (Suc L) 1)"
    "0 \<le> 2 * int k' - 2 * sint (offset_h gh (Suc L) 2)"
    using inb by (simp_all add: child_in_bounds_def fc)
  have e: "int (nat (2 * int i' - 2 * sint (offset_h gh (Suc L) 0)) + a) = 2 * int i - 2 * sint (offset_h gh (Suc L) 0) \<or>
           int (nat (2 * int i' - 2 * sint (offset_h gh (Suc L) 0)) + a) = 2 * int i - 2 * sint (offset_h gh (Suc L) 0) + 1"
    "int (nat (2 * int j' - 2 * sint (offset_h gh (Suc L) 1)) + b) = 2 * int j - 2 * sint (offset_h gh (Suc L) 1) \<or>
           int (nat (2 * int j' - 2 * sint (offset_h gh (Suc L) 1)) + b) = 2 * int j - 2 * sint (offset_h gh (Suc L) 1) + 1"
    "int (nat (2 * int k' - 2 * sint (offset_h gh (Suc L) 2)) + d) = 2 * int k - 2 * sint (offset_h gh (Suc L) 2) \<or>
           int (nat (2 * int k' - 2 * sint (offset_h gh (Suc L) 2)) + d) = 2 * int k - 2 * sint (offset_h gh (Suc L) 2) + 1"
    using ch unfolding is_child_def fc by simp_all
  show ?thesis
    using parent_unique[OF nn(1) a(1) e(1)] parent_unique[OF nn(2) a(2) e(2)]
      parent_unique[OF nn(3) a(3) e(3)] by simp
qed

lemma cell_flagged_refine_cell:
  assumes r: "pass_ready gh L" and c: "level_cell gh L (i, j, k)" and c': "level_cell gh L (i', j', k')"
    and ne: "(i, j, k) \<noteq> (i', j', k')"
  shows "cell_flagged (refine_cell L (i, j, k) gh) L (i', j', k') = cell_flagged gh L (i', j', k')"
proof (cases "child_in_bounds gh L (i', j', k')")
  case False
  then show ?thesis
    by (simp add: cell_flagged_def child_in_bounds_cong[of "refine_cell L (i, j, k) gh" gh])
next
  case True
  note f = pass_ready_facts[OF r]
  note cb = child_block[OF True f(3-8)]
  have same: "mask_get (m_ref_masks (refine_cell L (i, j, k) gh) ! Suc L)
                (nat (fst (first_child gh L (i', j', k'))) + a)
                (nat (fst (snd (first_child gh L (i', j', k')))) + b)
                (nat (snd (snd (first_child gh L (i', j', k')))) + d)
              = mask_get (m_ref_masks gh ! Suc L)
                (nat (fst (first_child gh L (i', j', k'))) + a)
                (nat (fst (snd (first_child gh L (i', j', k')))) + b)
                (nat (snd (snd (first_child gh L (i', j', k')))) + d)"
    if a: "a \<le> 1" "b \<le> 1" "d \<le> 1" for a b d
  proof -
    have b1: "nat (fst (snd (first_child gh L (i', j', k')))) + b < size_h gh (Suc L) 1"
      "nat (snd (snd (first_child gh L (i', j', k')))) + d < size_h gh (Suc L) 2"
      using cb(2,3) a by simp_all
    have "\<not> is_child gh L (i, j, k)
               (nat (fst (first_child gh L (i', j', k'))) + a,
                nat (fst (snd (first_child gh L (i', j', k')))) + b,
                nat (snd (snd (first_child gh L (i', j', k')))) + d)"
      using child_of_unique[OF r c c' True a] ne by blast
    then show ?thesis
      by (simp add: refine_cell_get_fine[OF r b1])
  qed
  show ?thesis
    unfolding cell_flagged_def child_in_bounds_cong[of "refine_cell L (i, j, k) gh" gh, OF refine_cell_fields(1)]
      first_child_cong[of "refine_cell L (i, j, k) gh" gh, OF refine_cell_fields(1)]
      case_prod_unfold any8_iff
    by (simp add: same cong: conj_cong)
qed

lemma fold_refine_cell_fields [simp]:
  "m_pgrids (fold (refine_cell L) cs gh) = m_pgrids gh"
  "m_levelmin (fold (refine_cell L) cs gh) = m_levelmin gh"
  "bhave_refmask (fold (refine_cell L) cs gh) = bhave_refmask gh"
  "length (m_ref_masks (fold (refine_cell L) cs gh)) = length (m_ref_masks gh)"
  by (induction cs arbitrary: gh) simp_all

lemma fold_refine_cell_other:
  "l \<noteq> L \<Longrightarrow> l \<noteq> Suc L \<Longrightarrow> m_ref_masks (fold (refine_cell L) cs gh) ! l = m_ref_masks gh ! l"
  by (induction cs arbitrary: gh) (simp_all add: refine_cell_other)

lemma fold_refine_cell_fit: "masks_fit gh l \<Longrightarrow> masks_fit (fold (refine_cell L) cs gh) l"
  by (induction cs arbitrary: gh) (simp_all add: refine_cell_fit)

lemma cell_flagged_cong_rest:
  assumes r: "pass_ready gh L" and c: "level_cell gh L c" and d: "c \<notin> set cs"
    and all: "\<forall>c' \<in> set cs. level_cell gh L c'" and m: "c' \<in> set cs"
  shows "cell_flagged (refine_cell L c gh) L c' = cell_flagged gh L c'"
proof -
  obtain i j k where c1: "c = (i, j, k)" by (cases c)
  obtain i' j' k' where c2: "c' = (i', j', k')" by (cases c')
  have "(i, j, k) \<noteq> (i', j', k')" using d m c1 c2 by auto
  then show ?thesis
    using cell_flagged_refine_cell[OF r c[unfolded c1], of i' j' k'] all m c2 c1 by auto
qed

lemma fold_refine_cell_coarse:
  assumes "pass_ready gh L" "distinct cs" "\<forall>c \<in> set cs. level_cell gh L c"
    and "y < size_h gh L 1" "z < size_h gh L 2"
  shows "mask_get (m_ref_masks (fold (refine_cell L) cs gh) ! L) x y z =
           (if (x, y, z) \<in> set cs \<and> cell_flagged gh L (x, y, z) then 2
            else mask_get (m_ref_masks gh ! L) x y z)"
  using assms
proof (induction cs arbitrary: gh)
  case Nil
  show ?case by simp
next
  case (Cons c cs)
  obtain i j k where c: "c = (i, j, k)" by (cases c)
  let ?g = "refine_cell L c gh"
  have r1: "pass_ready ?g L" by (rule pass_ready_refine_cell[OF Cons.prems(1)])
  have lc: "level_cell gh L c" "c \<notin> set cs" "distinct cs" "\<forall>c' \<in> set cs. level_cell gh L c'"
    using Cons.prems(2,3) by simp_all
  have all1: "\<forall>c' \<in> set cs. level_cell ?g L c'"
    using lc(4) by (simp add: level_cell_cong[of ?g gh])
  have b1: "y < size_h ?g L 1" "z < size_h ?g L 2"
    using Cons.prems(4,5) by (simp_all add: size_h_def)
  have ih: "mask_get (m_ref_masks (fold (refine_cell L) cs ?g) ! L) x y z =
           (if (x, y, z) \<in> set cs \<and> cell_flagged ?g L (x, y, z) then 2
            else mask_get (m_ref_masks ?g ! L) x y z)"
    by (rule Cons.IH[OF r1 lc(3) all1 b1])
  have fl: "cell_flagged ?g L (x, y, z) = cell_flagged gh L (x, y, z)" if "(x, y, z) \<in> set cs"
    by (rule cell_flagged_cong_rest[OF Cons.prems(1) lc(1,2,4) that])
  have st: "mask_get (m_ref_masks ?g ! L) x y z =
      (if cell_flagged gh L c \<and> (x, y, z) = c then 2 else mask_get (m_ref_masks gh ! L) x y z)"
    using refine_cell_get_coarse[OF Cons.prems(1) lc(1)[unfolded c] Cons.prems(4,5), of x]
    by (simp add: c)
  have eq: "fold (refine_cell L) (c # cs) gh = fold (refine_cell L) cs ?g" by simp
  show ?case
    unfolding eq ih st using fl by auto
qed

lemma fold_refine_cell_fine:
  assumes "pass_ready gh L" "distinct cs" "\<forall>c \<in> set cs. level_cell gh L c"
    and "y < size_h gh (Suc L) 1" "z < size_h gh (Suc L) 2"
  shows "mask_get (m_ref_masks (fold (refine_cell L) cs gh) ! Suc L) x y z =
           (if \<exists>c \<in> set cs. cell_flagged gh L c \<and> is_child gh L c (x, y, z) then 1
            else mask_get (m_ref_masks gh ! Suc L) x y z)"
  using assms
proof (induction cs arbitrary: gh)
  case Nil
  show ?case by simp
next
  case (Cons c cs)
  obtain i j k where c: "c = (i, j, k)" by (cases c)
  let ?g = "refine_cell L c gh"
  have r1: "pass_ready ?g L" by (rule pass_ready_refine_cell[OF Cons.prems(1)])
  have lc: "level_cell gh L c" "c \<notin> set cs" "distinct cs" "\<forall>c' \<in> set cs. level_cell gh L c'"
    using Cons.prems(2,3) by simp_all
  have all1: "\<forall>c' \<in> set cs. level_cell ?g L c'"
    using lc(4) by (simp add: level_cell_cong[of ?g gh])
  have b1: "y < size_h ?g (Suc L) 1" "z < size_h ?g (Suc L) 2"
    using Cons.prems(4,5) by (simp_all add: size_h_def)
  have ih: "mask_get (m_ref_masks (fold (refine_cell L) cs ?g) ! Suc L) x y z =
           (if \<exists>c' \<in> set cs. cell_flagged ?g L c' \<and> is_child ?g L c' (x, y, z) then 1
            else mask_get (m_ref_masks ?g ! Suc L) x y z)"
    by (rule Cons.IH[OF r1 lc(3) all1 b1])
  have fl: "cell_flagged ?g L c' = cell_flagged gh L c'" if "c' \<in> set cs" for c'
    by (rule cell_flagged_cong_rest[OF Cons.prems(1) lc(1,2,4) that])
  have ic: "is_child ?g L c' p = is_child gh L c' p" for c' p
    by (simp add: is_child_cong[of ?g gh])
  have ex: "(\<exists>c' \<in> set cs. cell_flagged ?g L c' \<and> is_child ?g L c' (x, y, z))
      = (\<exists>c' \<in> set cs. cell_flagged gh L c' \<and> is_child gh L c' (x, y, z))"
    using fl by (simp add: ic cong: bex_cong)
  have st: "mask_get (m_ref_masks ?g ! Suc L) x y z =
      (if cell_flagged gh L c \<and> is_child gh L c (x, y, z) then 1
       else mask_get (m_ref_masks gh ! Suc L) x y z)"
    using refine_cell_get_fine[OF Cons.prems(1,4,5), of i j k x] by (simp add: c)
  have eq: "fold (refine_cell L) (c # cs) gh = fold (refine_cell L) cs ?g" by simp
  show ?case
    unfolding eq ih ex st by auto
qed

lemma distinct_idx3_cells:
  "distinct (idx3 nx ny nz) \<and> (\<forall>c \<in> set (idx3 nx ny nz). case c of (i, j, k) \<Rightarrow> i < nx \<and> j < ny \<and> k < nz)"
  by (simp add: distinct_idx3 set_idx3)

lemma refine_level_fields [simp]:
  "m_pgrids (refine_level L gh) = m_pgrids gh"
  "m_levelmin (refine_level L gh) = m_levelmin gh"
  "bhave_refmask (refine_level L gh) = bhave_refmask gh"
  "length (m_ref_masks (refine_level L gh)) = length (m_ref_masks gh)"
  by (simp_all add: refine_level_def)

lemma refine_level_other:
  "l \<noteq> L \<Longrightarrow> l \<noteq> Suc L \<Longrightarrow> m_ref_masks (refine_level L gh) ! l = m_ref_masks gh ! l"
  by (simp add: refine_level_def fold_refine_cell_other)

lemma refine_level_fit: "masks_fit gh l \<Longrightarrow> masks_fit (refine_level L gh) l"
  by (simp add: refine_level_def fold_refine_cell_fit)

lemma pass_ready_refine_level: "pass_ready gh M \<Longrightarrow> pass_ready (refine_level L gh) M"
  by (simp add: pass_ready_def refine_level_fit size_h_def)

lemma level_cells:
  "distinct (idx3 (size_h gh L 0) (size_h gh L 1) (size_h gh L 2))"
  "\<forall>c \<in> set (idx3 (size_h gh L 0) (size_h gh L 1) (size_h gh L 2)). level_cell gh L c"
  "c \<in> set (idx3 (size_h gh L 0) (size_h gh L 1) (size_h gh L 2)) \<longleftrightarrow> level_cell gh L c"
  by (auto simp: distinct_idx3 set_idx3 level_cell_def)

lemma refine_level_coarse:
  assumes "pass_ready gh L" "level_cell gh L (x, y, z)"
  shows "mask_get (m_ref_masks (refine_level L gh) ! L) x y z =
           (if cell_flagged gh L (x, y, z) then 2 else mask_get (m_ref_masks gh ! L) x y z)"
proof -
  have b: "y < size_h gh L 1" "z < size_h gh L 2" using assms(2) by (simp_all add: level_cell_def)
  show ?thesis
    unfolding refine_level_def
      fold_refine_cell_coarse[OF assms(1) level_cells(1,2) b] level_cells(3)
    using assms(2) by simp
qed

lemma refine_level_fine:
  assumes "pass_ready gh L" "y < size_h gh (Suc L) 1" "z < size_h gh (Suc L) 2"
  shows "mask_get (m_ref_masks (refine_level L gh) ! Suc L) x y z =
           (if \<exists>c. level_cell gh L c \<and> cell_flagged gh L c \<and> is_child gh L c (x, y, z) then 1
            else mask_get (m_ref_masks gh ! Suc L) x y z)"
proof -
  have "(\<exists>c \<in> set (idx3 (size_h gh L 0) (size_h gh L 1) (size_h gh L 2)).
           cell_flagged gh L c \<and> is_child gh L c (x, y, z))
        = (\<exists>c. level_cell gh L c \<and> cell_flagged gh L c \<and> is_child gh L c (x, y, z))"
    unfolding Bex_def level_cells(3) ..
  then show ?thesis
    unfolding refine_level_def fold_refine_cell_fine[OF assms(1) level_cells(1,2) assms(2,3)]
    by simp
qed

section \<open>The second pass on all levels\<close>

lemma fold_refine_level_fields [simp]:
  "m_pgrids (fold refine_level ls gh) = m_pgrids gh"
  "m_levelmin (fold refine_level ls gh) = m_levelmin gh"
  "bhave_refmask (fold refine_level ls gh) = bhave_refmask gh"
  "length (m_ref_masks (fold refine_level ls gh)) = length (m_ref_masks gh)"
  by (induction ls arbitrary: gh) simp_all

lemma fold_refine_level_other:
  "\<forall>M \<in> set ls. l \<noteq> M \<and> l \<noteq> Suc M \<Longrightarrow>
     m_ref_masks (fold refine_level ls gh) ! l = m_ref_masks gh ! l"
  by (induction ls arbitrary: gh) (simp_all add: refine_level_other)

lemma pass_ready_fold: "pass_ready gh M \<Longrightarrow> pass_ready (fold refine_level ls gh) M"
  by (induction ls arbitrary: gh) (simp_all add: pass_ready_refine_level)

lemma cell_flagged_cong:
  "m_pgrids gh' = m_pgrids gh \<Longrightarrow> m_ref_masks gh' ! Suc L = m_ref_masks gh ! Suc L \<Longrightarrow>
     cell_flagged gh' L c = cell_flagged gh L c"
  by (simp add: cell_flagged_def child_in_bounds_cong[of gh' gh] first_child_cong[of gh' gh])

section \<open>The two passes\<close>

lemma mask_ready_alt:
  "mask_ready gh \<longleftrightarrow>
     m_pgrids gh \<noteq> [] \<and> length (m_pgrids gh) < 2 ^ 31 \<and>
     length (m_ref_masks gh) = length (m_pgrids gh) \<and>
     (\<forall>l d. levelmin gh \<le> l \<and> l < length (m_pgrids gh) \<and> d < 3 \<longrightarrow>
        even (size_h gh l d) \<and> size_h gh l d < 2 ^ 31)"
  unfolding mask_ready_def by auto

lemma mask_ready_levelmax:
  assumes "mask_ready gh"
  shows "levelmax gh = length (m_pgrids gh) - 1" "Suc (levelmax gh) = length (m_pgrids gh)"
    "levelmax gh < 2 ^ 31"
proof -
  have ne: "m_pgrids gh \<noteq> []" and lt: "length (m_pgrids gh) < 2 ^ 31"
    using assms by (simp_all add: mask_ready_alt)
  have lt': "length (m_pgrids gh) < 2 ^ 32" using lt by simp
  show a: "levelmax gh = length (m_pgrids gh) - 1" by (rule levelmax_nonempty[OF ne lt'])
  show "Suc (levelmax gh) = length (m_pgrids gh)" using a ne by simp
  show "levelmax gh < 2 ^ 31" using a lt by simp
qed

lemma add_refinement_mask_passes:
  assumes r: "mask_ready gh" and lv: "levelmin gh < levelmax gh"
  shows "add_refinement_mask q gh = fold refine_level [levelmin gh..<levelmax gh] (first_pass q gh)"
proof -
  note m = mask_ready_levelmax[OF r]
  define gh0 where "gh0 = gh\<lparr>bhave_refmask := False\<rparr>"
  have l0: "levelmin gh0 = levelmin gh" "levelmax gh0 = levelmax gh" "m_levelmin gh0 = levelmin gh"
    by (simp_all add: gh0_def levelmin_def levelmax_def)
  have u: "u2i (levelmin gh) = int (levelmin gh)" "u2i (levelmax gh) = int (levelmax gh)"
    using lv m(3) by (simp_all add: u2i_small)
  define gh1 where "gh1 = fold (flag_level q) (rev [levelmin gh..<Suc (levelmax gh)]) gh0"
  define gh2 where "gh2 = gh1\<lparr>bhave_refmask := True\<rparr>"
  have l2: "levelmin gh2 = levelmin gh" "levelmax gh2 = levelmax gh"
    by (simp_all add: gh2_def gh1_def gh0_def levelmin_def levelmax_def)
  have ne: "m_levelmin gh0 \<noteq> levelmax gh0" using lv by (simp add: l0)
  have "add_refinement_mask q gh =
      fold refine_level (map nat [u2i (levelmin gh2)..u2i (levelmax gh2) - 1]) gh2"
    unfolding add_refinement_mask_def Let_def gh0_def[symmetric]
    using ne by (simp add: gh2_def gh1_def l0 u levels_upt del: upt_Suc)
  then have "add_refinement_mask q gh = fold refine_level [levelmin gh..<levelmax gh] gh2"
    by (simp only: l2 u levels_upt_less)
  then show ?thesis
    unfolding first_pass_def gh2_def gh1_def gh0_def .
qed

lemma first_pass_fields [simp]:
  "m_pgrids (first_pass q gh) = m_pgrids gh"
  "m_levelmin (first_pass q gh) = m_levelmin gh"
  "length (m_ref_masks (first_pass q gh)) = length (m_ref_masks gh)"
  by (simp_all add: first_pass_def)

lemma first_pass_at:
  assumes r: "mask_ready gh" and l: "levelmin gh \<le> l" "l \<le> levelmax gh"
  shows "first_pass_mask q gh l (m_ref_masks (first_pass q gh) ! l)"
proof -
  note m = mask_ready_levelmax[OF r]
  let ?g0 = "gh\<lparr>bhave_refmask := False\<rparr>"
  have ll: "l < length (m_pgrids gh)" using l(2) m(2) by simp
  have len: "l < length (m_ref_masks ?g0)" using r ll by (simp add: mask_ready_alt)
  have ev: "even (size_h ?g0 l 0)" "even (size_h ?g0 l 1)" "even (size_h ?g0 l 2)"
    using r l(1) ll by (simp_all add: mask_ready_alt size_h_def)
  have mem: "l \<in> set (rev [levelmin gh..<Suc (levelmax gh)])" using l by auto
  have "first_pass_mask q ?g0 l
          (m_ref_masks (fold (flag_level q) (rev [levelmin gh..<Suc (levelmax gh)]) ?g0) ! l)"
    by (rule fold_flag_level_at[OF _ mem len ev]) simp
  then show ?thesis
    by (simp add: first_pass_def first_pass_mask_cong[of ?g0 gh])
qed

lemma first_pass_ready:
  assumes r: "mask_ready gh" and l: "levelmin gh \<le> L" "L < levelmax gh"
  shows "pass_ready (first_pass q gh) L"
proof -
  note m = mask_ready_levelmax[OF r]
  have ll: "L < length (m_pgrids gh)" "Suc L < length (m_pgrids gh)" using l(2) m(2) by simp_all
  have len: "length (m_ref_masks gh) = length (m_pgrids gh)" using r by (simp add: mask_ready_alt)
  have sz: "even (size_h gh (Suc L) d) \<and> size_h gh (Suc L) d < 2 ^ 31 \<and> size_h gh L d < 2 ^ 31"
    if "d < 3" for d
    using r l(1) ll that by (simp add: mask_ready_alt)
  have f1: "first_pass_mask q gh L (m_ref_masks (first_pass q gh) ! L)"
    using first_pass_at[OF r l(1)] l(2) by simp
  have f2: "first_pass_mask q gh (Suc L) (m_ref_masks (first_pass q gh) ! Suc L)"
    using first_pass_at[OF r, of "Suc L"] l by simp
  show ?thesis
    unfolding pass_ready_def masks_fit_def
    using f1 f2 sz ll len by (simp add: first_pass_mask_def size_h_def)
qed

text \<open>The eight children of a cell lie in one block of the first pass.\<close>

lemma any8_first_pass:
  assumes fp: "first_pass_mask q gh (Suc L) m" and lm: "levelmin gh \<le> L" "levelmin gh < 2 ^ 31"
    and inb: "child_in_bounds gh L (i, j, k)"
    and ev: "even (size_h gh (Suc L) 0)" "even (size_h gh (Suc L) 1)" "even (size_h gh (Suc L) 2)"
    and sm: "size_h gh (Suc L) 0 < 2 ^ 31" "size_h gh (Suc L) 1 < 2 ^ 31" "size_h gh (Suc L) 2 < 2 ^ 31"
  shows "any8 m (nat (fst (first_child gh L (i, j, k)))) (nat (fst (snd (first_child gh L (i, j, k)))))
           (nat (snd (snd (first_child gh L (i, j, k)))))
         \<longleftrightarrow> q (Suc L) (nat (fst (first_child gh L (i, j, k))))
               (nat (fst (snd (first_child gh L (i, j, k)))))
               (nat (snd (snd (first_child gh L (i, j, k)))))"
    and "\<forall>a \<le> 1. \<forall>b \<le> 1. \<forall>d \<le> 1.
           mask_get m (nat (fst (first_child gh L (i, j, k))) + a)
             (nat (fst (snd (first_child gh L (i, j, k)))) + b)
             (nat (snd (snd (first_child gh L (i, j, k)))) + d)
           = (if q (Suc L) (nat (fst (first_child gh L (i, j, k))))
               (nat (fst (snd (first_child gh L (i, j, k)))))
               (nat (snd (snd (first_child gh L (i, j, k))))) then 1 else - 1)"
proof -
  define A B D where "A = nat (fst (first_child gh L (i, j, k)))"
    and "B = nat (fst (snd (first_child gh L (i, j, k))))"
    and "D = nat (snd (snd (first_child gh L (i, j, k))))"
  note cb = child_block[OF inb ev sm, folded A_def B_def D_def]
  have en: "even (nat (2 * a - 2 * b))" for a b :: int
    by (cases "0 \<le> 2 * a - 2 * b") (simp_all add: even_nat_iff)
  have e: "even A" "even B" "even D"
    by (simp_all add: A_def B_def D_def first_child_def en)
  have nl: "int (Suc L) \<noteq> u2i (levelmin gh)" using lm by (simp add: u2i_small)
  have half: "2 * ((n + a) div 2) = n" if "even n" "a \<le> 1" for n a :: nat
    using that by presburger
  have v: "mask_get m (A + a) (B + b) (D + d) = (if q (Suc L) A B D then 1 else - 1)"
    if "a \<le> 1" "b \<le> 1" "d \<le> 1" for a b d
  proof -
    have b3: "A + a < size_h gh (Suc L) 0" "B + b < size_h gh (Suc L) 1" "D + d < size_h gh (Suc L) 2"
      using cb that by simp_all
    show ?thesis
      using fp b3 nl
      by (simp add: first_pass_mask_def half[OF e(1) that(1)] half[OF e(2) that(2)]
          half[OF e(3) that(3)])
  qed
  show "\<forall>a \<le> 1. \<forall>b \<le> 1. \<forall>d \<le> 1.
           mask_get m (nat (fst (first_child gh L (i, j, k))) + a)
             (nat (fst (snd (first_child gh L (i, j, k)))) + b)
             (nat (snd (snd (first_child gh L (i, j, k)))) + d)
           = (if q (Suc L) (nat (fst (first_child gh L (i, j, k))))
               (nat (fst (snd (first_child gh L (i, j, k)))))
               (nat (snd (snd (first_child gh L (i, j, k))))) then 1 else - 1)"
    unfolding A_def[symmetric] B_def[symmetric] D_def[symmetric] using v by blast
  have "any8 m A B D \<longleftrightarrow> q (Suc L) A B D"
    unfolding any8_iff by (simp add: v cong: conj_cong) blast
  then show "any8 m (nat (fst (first_child gh L (i, j, k)))) (nat (fst (snd (first_child gh L (i, j, k)))))
           (nat (snd (snd (first_child gh L (i, j, k)))))
         \<longleftrightarrow> q (Suc L) (nat (fst (first_child gh L (i, j, k))))
               (nat (fst (snd (first_child gh L (i, j, k)))))
               (nat (snd (snd (first_child gh L (i, j, k)))))"
    by (simp add: A_def B_def D_def)
qed

lemma upt_split: "a \<le> L \<Longrightarrow> L < b \<Longrightarrow> [a..<b] = [a..<L] @ L # [Suc L..<b]"
proof -
  assume l: "a \<le> L" "L < b"
  have "[a..<b] = [a..<L] @ [L..<b]"
    using upt_add_eq_append[OF l(1), of "b - L"] l(2) by simp
  then show ?thesis using upt_conv_Cons[OF l(2)] by simp
qed

lemma first_pass_not_two:
  assumes "first_pass_mask q gh l m" "level_cell gh l (x, y, z)"
  shows "mask_get m x y z \<noteq> 2" "mask_get m x y z = 1 \<or> mask_get m x y z = - 1"
  using assms by (simp_all add: first_pass_mask_def level_cell_def)

text \<open>The state in which the second pass reaches level \<open>L\<close>.\<close>

lemma before_level:
  assumes r: "mask_ready gh" and l: "levelmin gh \<le> L" "L < levelmax gh"
  shows "pass_ready (fold refine_level [levelmin gh..<L] (first_pass q gh)) L"
    and "m_ref_masks (fold refine_level [levelmin gh..<L] (first_pass q gh)) ! Suc L
           = m_ref_masks (first_pass q gh) ! Suc L"
    and "level_cell gh L (x, y, z) \<Longrightarrow>
           mask_get (m_ref_masks (fold refine_level [levelmin gh..<L] (first_pass q gh)) ! L) x y z \<noteq> 2"
proof -
  let ?P = "first_pass q gh"
  show "pass_ready (fold refine_level [levelmin gh..<L] ?P) L"
    by (rule pass_ready_fold[OF first_pass_ready[OF r l]])
  show "m_ref_masks (fold refine_level [levelmin gh..<L] ?P) ! Suc L = m_ref_masks ?P ! Suc L"
    by (rule fold_refine_level_other) simp
  assume c: "level_cell gh L (x, y, z)"
  have fpL: "first_pass_mask q gh L (m_ref_masks ?P ! L)"
    using first_pass_at[OF r l(1)] l(2) by simp
  show "mask_get (m_ref_masks (fold refine_level [levelmin gh..<L] ?P) ! L) x y z \<noteq> 2"
  proof (cases "L = levelmin gh")
    case True
    then show ?thesis using first_pass_not_two(1)[OF fpL c] by simp
  next
    case False
    then obtain K where K: "L = Suc K" "levelmin gh \<le> K" "K < levelmax gh"
      using l by (cases L) simp_all
    let ?G' = "fold refine_level [levelmin gh..<K] ?P"
    have g: "fold refine_level [levelmin gh..<Suc K] ?P = refine_level K ?G'"
      using K(2) by simp
    have rd: "pass_ready ?G' K"
      by (rule pass_ready_fold[OF first_pass_ready[OF r K(2,3)]])
    have old: "m_ref_masks ?G' ! Suc K = m_ref_masks ?P ! Suc K"
      by (rule fold_refine_level_other) simp
    have b: "y < size_h ?G' (Suc K) 1" "z < size_h ?G' (Suc K) 2"
      using c K(1) by (simp_all add: level_cell_def size_h_def)
    show ?thesis
      unfolding K(1) g refine_level_fine[OF rd b] old
      using first_pass_not_two(1)[OF fpL c] K(1) by simp
  qed
qed

lemma cell_flagged_first_pass:
  assumes r: "mask_ready gh" and l: "levelmin gh \<le> L" "L < levelmax gh"
  shows "cell_flagged (first_pass q gh) L (i, j, k) \<longleftrightarrow>
           child_in_bounds gh L (i, j, k) \<and>
           q (Suc L) (nat (fst (first_child gh L (i, j, k))))
             (nat (fst (snd (first_child gh L (i, j, k)))))
             (nat (snd (snd (first_child gh L (i, j, k)))))"
proof (cases "child_in_bounds gh L (i, j, k)")
  case False
  then show ?thesis
    by (simp add: cell_flagged_def child_in_bounds_cong[of "first_pass q gh" gh])
next
  case True
  note m = mask_ready_levelmax[OF r]
  note f = pass_ready_facts[OF first_pass_ready[OF r l, where q = q]]
  have fp: "first_pass_mask q gh (Suc L) (m_ref_masks (first_pass q gh) ! Suc L)"
    using first_pass_at[OF r, of "Suc L"] l by simp
  have lm: "levelmin gh < 2 ^ 31" using l m(3) by simp
  have sz: "size_h (first_pass q gh) (Suc L) d = size_h gh (Suc L) d" for d
    by (simp add: size_h_def)
  show ?thesis
    unfolding cell_flagged_def child_in_bounds_cong[of "first_pass q gh" gh, OF first_pass_fields(1)]
      first_child_cong[of "first_pass q gh" gh, OF first_pass_fields(1)] case_prod_unfold
    using any8_first_pass(1)[OF fp l(1) lm True f(3-8)[unfolded sz]] True by simp
qed

text \<open>After both passes: which cells of a level are marked.\<close>

lemma marked_iff:
  assumes r: "mask_ready gh" and l: "levelmin gh \<le> L" "L < levelmax gh"
    and c: "level_cell gh L (i, j, k)"
  shows "mask_get (m_ref_masks (add_refinement_mask q gh) ! L) i j k = 2 \<longleftrightarrow>
           child_in_bounds gh L (i, j, k) \<and>
           q (Suc L) (nat (fst (first_child gh L (i, j, k))))
             (nat (fst (snd (first_child gh L (i, j, k)))))
             (nat (snd (snd (first_child gh L (i, j, k)))))"
proof -
  let ?P = "first_pass q gh"
  let ?G = "fold refine_level [levelmin gh..<L] ?P"
  have lv: "levelmin gh < levelmax gh" using l by simp
  have fin: "add_refinement_mask q gh = fold refine_level [Suc L..<levelmax gh] (refine_level L ?G)"
    unfolding add_refinement_mask_passes[OF r lv] upt_split[OF l] by simp
  have at: "m_ref_masks (add_refinement_mask q gh) ! L = m_ref_masks (refine_level L ?G) ! L"
    unfolding fin by (rule fold_refine_level_other) simp
  note b = before_level[OF r l, where q = q]
  have c': "level_cell ?G L (i, j, k)" using c by (simp add: level_cell_cong[of ?G gh])
  have fl: "cell_flagged ?G L (i, j, k) = cell_flagged ?P L (i, j, k)"
    by (rule cell_flagged_cong[OF _ b(2)]) simp
  show ?thesis
    unfolding at refine_level_coarse[OF b(1) c'] fl cell_flagged_first_pass[OF r l]
    using b(3)[OF c] by simp
qed

lemma final_mask_at:
  assumes r: "mask_ready gh" and l: "levelmin gh \<le> M" "M < levelmax gh"
  shows "m_ref_masks (add_refinement_mask q gh) ! M
           = m_ref_masks (refine_level M (fold refine_level [levelmin gh..<M] (first_pass q gh))) ! M"
proof -
  have lv: "levelmin gh < levelmax gh" using l by simp
  have fin: "add_refinement_mask q gh = fold refine_level [Suc M..<levelmax gh]
      (refine_level M (fold refine_level [levelmin gh..<M] (first_pass q gh)))"
    unfolding add_refinement_mask_passes[OF r lv] upt_split[OF l] by simp
  show ?thesis
    unfolding fin by (rule fold_refine_level_other) simp
qed

lemma final_mask_finest:
  assumes r: "mask_ready gh" and l: "levelmin gh \<le> L" "Suc L = levelmax gh"
  shows "m_ref_masks (add_refinement_mask q gh) ! Suc L
           = m_ref_masks (refine_level L (fold refine_level [levelmin gh..<L] (first_pass q gh))) ! Suc L"
proof -
  have lv: "levelmin gh < levelmax gh" "L < levelmax gh" using l by simp_all
  have "[levelmin gh..<levelmax gh] = [levelmin gh..<L] @ [L]"
    using l by (simp flip: l(2))
  then show ?thesis
    unfolding add_refinement_mask_passes[OF r lv(1)] by simp
qed

text \<open>The children of a cell when the second pass has left the cell's level.\<close>

lemma corner_is_child:
  assumes "0 \<le> fst (first_child gh L c)" "0 \<le> fst (snd (first_child gh L c))"
    "0 \<le> snd (snd (first_child gh L c))" "a \<le> 1" "b \<le> 1" "d \<le> 1"
  shows "is_child gh L c (nat (fst (first_child gh L c)) + a,
           nat (fst (snd (first_child gh L c))) + b, nat (snd (snd (first_child gh L c))) + d)"
  using assms unfolding is_child_def case_prod_unfold by auto

lemma child_value_after_level:
  assumes r: "mask_ready gh" and l: "levelmin gh \<le> L" "L < levelmax gh"
    and c: "level_cell gh L (i, j, k)" and inb: "child_in_bounds gh L (i, j, k)"
    and a: "a \<le> 1" "b \<le> 1" "d \<le> 1"
  shows "mask_get (m_ref_masks (refine_level L (fold refine_level [levelmin gh..<L] (first_pass q gh)))
                    ! Suc L)
           (nat (fst (first_child gh L (i, j, k))) + a)
           (nat (fst (snd (first_child gh L (i, j, k)))) + b)
           (nat (snd (snd (first_child gh L (i, j, k)))) + d)
         = (if q (Suc L) (nat (fst (first_child gh L (i, j, k))))
                 (nat (fst (snd (first_child gh L (i, j, k)))))
                 (nat (snd (snd (first_child gh L (i, j, k))))) then 1 else - 1)"
proof -
  let ?P = "first_pass q gh"
  let ?G = "fold refine_level [levelmin gh..<L] ?P"
  define A B D where "A = nat (fst (first_child gh L (i, j, k)))"
    and "B = nat (fst (snd (first_child gh L (i, j, k))))"
    and "D = nat (snd (snd (first_child gh L (i, j, k))))"
  note m = mask_ready_levelmax[OF r]
  note bl = before_level[OF r l, where q = q]
  note f = pass_ready_facts[OF bl(1)]
  have pg: "m_pgrids ?G = m_pgrids gh" by simp
  have inbG: "child_in_bounds ?G L (i, j, k)" using inb by (simp add: child_in_bounds_cong[OF pg])
  have fcG: "first_child ?G L c' = first_child gh L c'" for c' by (rule first_child_cong[OF pg])
  note cb = child_block[OF inbG f(3-8), unfolded fcG, folded A_def B_def D_def]
  have bnd: "B + b < size_h ?G (Suc L) 1" "D + d < size_h ?G (Suc L) 2"
    using cb a by simp_all
  have fl: "cell_flagged ?G L (i, j, k) \<longleftrightarrow> q (Suc L) A B D"
    using cell_flagged_cong[of ?G ?P L "(i, j, k)", OF _ bl(2)] cell_flagged_first_pass[OF r l, of q i j k]
      inb by (simp add: A_def B_def D_def)
  have cG: "level_cell ?G L (i, j, k)" using c by (simp add: level_cell_cong[OF pg])
  have own: "is_child ?G L (i, j, k) (A + a, B + b, D + d)"
    using corner_is_child[of ?G L "(i, j, k)" a b d] cb a
    by (simp add: fcG A_def B_def D_def)
  have only: "c' = (i, j, k)"
    if "level_cell ?G L c'" "is_child ?G L c' (A + a, B + b, D + d)" for c'
  proof -
    obtain i' j' k' where c': "c' = (i', j', k')" by (cases c')
    show ?thesis
      using child_of_unique[OF bl(1) that(1)[unfolded c'] cG inbG a] that(2)
      by (simp add: c' fcG A_def B_def D_def)
  qed
  have ex: "(\<exists>c'. level_cell ?G L c' \<and> cell_flagged ?G L c' \<and> is_child ?G L c' (A + a, B + b, D + d))
      \<longleftrightarrow> q (Suc L) A B D"
    using only own cG fl by blast
  have fp: "first_pass_mask q gh (Suc L) (m_ref_masks ?P ! Suc L)"
    using first_pass_at[OF r, of "Suc L"] l by simp
  have lm: "levelmin gh < 2 ^ 31" using l m(3) by simp
  have sz: "size_h ?G (Suc L) d = size_h gh (Suc L) d" for d by (simp add: size_h_def)
  have old: "mask_get (m_ref_masks ?P ! Suc L) (A + a) (B + b) (D + d)
      = (if q (Suc L) A B D then 1 else - 1)"
    using any8_first_pass(2)[OF fp l(1) lm inb f(3-8)[unfolded sz]] a
    by (simp add: A_def B_def D_def)
  show ?thesis
    unfolding A_def[symmetric] B_def[symmetric] D_def[symmetric]
      refine_level_fine[OF bl(1) bnd] ex bl(2) old
    by simp
qed

lemma children_marked:
  assumes r: "mask_ready gh" and l: "levelmin gh \<le> L" "L < levelmax gh"
    and c: "level_cell gh L (i, j, k)"
    and mk: "mask_get (m_ref_masks (add_refinement_mask q gh) ! L) i j k = 2"
    and a: "a \<le> 1" "b \<le> 1" "d \<le> 1"
  shows "mask_get (m_ref_masks (add_refinement_mask q gh) ! Suc L)
           (nat (fst (first_child gh L (i, j, k))) + a)
           (nat (fst (snd (first_child gh L (i, j, k)))) + b)
           (nat (snd (snd (first_child gh L (i, j, k)))) + d) \<in> {1, 2}"
    and "Suc L = levelmax gh \<Longrightarrow>
         mask_get (m_ref_masks (add_refinement_mask q gh) ! Suc L)
           (nat (fst (first_child gh L (i, j, k))) + a)
           (nat (fst (snd (first_child gh L (i, j, k)))) + b)
           (nat (snd (snd (first_child gh L (i, j, k)))) + d) = 1"
proof -
  let ?P = "first_pass q gh"
  let ?G = "fold refine_level [levelmin gh..<L] ?P"
  let ?F = "add_refinement_mask q gh"
  define A B D where "A = nat (fst (first_child gh L (i, j, k)))"
    and "B = nat (fst (snd (first_child gh L (i, j, k))))"
    and "D = nat (snd (snd (first_child gh L (i, j, k))))"
  have inb: "child_in_bounds gh L (i, j, k)" and qq: "q (Suc L) A B D"
    using marked_iff[OF r l c, of q] mk by (simp_all add: A_def B_def D_def)
  have v: "mask_get (m_ref_masks (refine_level L ?G) ! Suc L) (A + a) (B + b) (D + d) = 1"
    using child_value_after_level[OF r l c inb a, of q] qq by (simp add: A_def B_def D_def)
  have fin: "mask_get (m_ref_masks ?F ! Suc L) (A + a) (B + b) (D + d) = 1"
    if "Suc L = levelmax gh"
    unfolding final_mask_finest[OF r l(1) that] by (rule v)
  have "mask_get (m_ref_masks ?F ! Suc L) (A + a) (B + b) (D + d) \<in> {1, 2}"
  proof (cases "Suc L = levelmax gh")
    case True
    then show ?thesis using fin by simp
  next
    case False
    then have l': "levelmin gh \<le> Suc L" "Suc L < levelmax gh" using l by simp_all
    let ?H = "fold refine_level [levelmin gh..<Suc L] ?P"
    have h: "?H = refine_level L ?G" using l(1) by simp
    note f = pass_ready_facts[OF before_level(1)[OF r l, where q = q]]
    have pg: "m_pgrids ?G = m_pgrids gh" by simp
    have inbG: "child_in_bounds ?G L (i, j, k)" using inb by (simp add: child_in_bounds_cong[OF pg])
    have fcG: "first_child ?G L c' = first_child gh L c'" for c' by (rule first_child_cong[OF pg])
    note cb = child_block[OF inbG f(3-8), unfolded fcG, folded A_def B_def D_def]
    have lc: "level_cell ?H (Suc L) (A + a, B + b, D + d)"
      using cb a by (simp add: level_cell_def size_h_def)
    show ?thesis
      unfolding final_mask_at[OF r l']
        refine_level_coarse[OF before_level(1)[OF r l', where q = q] lc]
      unfolding h using v by simp
  qed
  then show "mask_get (m_ref_masks ?F ! Suc L)
           (nat (fst (first_child gh L (i, j, k))) + a)
           (nat (fst (snd (first_child gh L (i, j, k)))) + b)
           (nat (snd (snd (first_child gh L (i, j, k)))) + d) \<in> {1, 2}"
    by (simp only: A_def B_def D_def)
  show "mask_get (m_ref_masks ?F ! Suc L)
           (nat (fst (first_child gh L (i, j, k))) + a)
           (nat (fst (snd (first_child gh L (i, j, k)))) + b)
           (nat (snd (snd (first_child gh L (i, j, k)))) + d) = 1"
    if "Suc L = levelmax gh"
    using fin[OF that] by (simp only: A_def B_def D_def)
qed

lemma finest_pair:
  assumes r: "mask_ready gh" and l: "levelmin gh \<le> L" "Suc L = levelmax gh"
    and c: "level_cell gh L (i, j, k)"
  shows "mask_get (m_ref_masks (add_refinement_mask q gh) ! L) i j k = 2 \<longleftrightarrow>
           child_in_bounds gh L (i, j, k) \<and>
           any8 (m_ref_masks (add_refinement_mask q gh) ! Suc L)
             (nat (fst (first_child gh L (i, j, k))))
             (nat (fst (snd (first_child gh L (i, j, k)))))
             (nat (snd (snd (first_child gh L (i, j, k)))))"
proof (cases "child_in_bounds gh L (i, j, k)")
  case False
  have l2: "L < levelmax gh" using l(2) by simp
  show ?thesis using marked_iff[OF r l(1) l2 c, of q] False by simp
next
  case True
  have l2: "L < levelmax gh" using l(2) by simp
  let ?P = "first_pass q gh"
  let ?G = "fold refine_level [levelmin gh..<L] ?P"
  define A B D where "A = nat (fst (first_child gh L (i, j, k)))"
    and "B = nat (fst (snd (first_child gh L (i, j, k))))"
    and "D = nat (snd (snd (first_child gh L (i, j, k))))"
  define m where "m = m_ref_masks (add_refinement_mask q gh) ! Suc L"
  have v: "mask_get m (A + a) (B + b) (D + d) = (if q (Suc L) A B D then 1 else - 1)"
    if "a \<le> 1" "b \<le> 1" "d \<le> 1" for a b d
    unfolding m_def final_mask_finest[OF r l] A_def B_def D_def
    by (rule child_value_after_level[OF r l(1) l2 c True that])
  have "any8 m A B D \<longleftrightarrow> q (Suc L) A B D"
  proof
    assume "any8 m A B D"
    then obtain a b d where "a \<le> 1" "b \<le> 1" "d \<le> 1" "mask_get m (A + a) (B + b) (D + d) > 0"
      unfolding any8_iff by blast
    then show "q (Suc L) A B D" using v[of a b d] by (simp split: if_splits)
  next
    assume "q (Suc L) A B D"
    then have "mask_get m (A + 0) (B + 0) (D + 0) > 0" using v[of 0 0 0] by simp
    then have "0 \<le> (1 :: nat) \<and> (0 \<le> (1 :: nat) \<and> (0 \<le> (1 :: nat) \<and> mask_get m (A + 0) (B + 0) (D + 0) > 0))"
      by simp
    then show "any8 m A B D" unfolding any8_iff by blast
  qed
  then show ?thesis
    using marked_iff[OF r l(1) l2 c, of q] True by (simp add: A_def B_def D_def m_def)
qed

section \<open>The nested example\<close>

lemma ex_nested_levels: "levelmin ex_nested = 1" "levelmax ex_nested = 3"
  by (simp_all add: levelmin_def levelmax_def ex_nested_def)

lemma ex_nested_size: "l \<in> {1, 2, 3} \<Longrightarrow> size_h ex_nested l d = 2"
  by (auto simp: size_h_def size_bnd_def ex_nested_def ex_grid_def)

lemma ex_nested_ready: "mask_ready ex_nested"
proof -
  have s: "size_h ex_nested l d = 2" if "levelmin ex_nested \<le> l" "l < length (m_pgrids ex_nested)" for l d
  proof -
    have "1 \<le> l" "l < 4" using that by (simp_all add: ex_nested_levels) (simp add: ex_nested_def)
    then have "l \<in> {1, 2, 3}" by auto
    then show ?thesis by (rule ex_nested_size)
  qed
  show ?thesis
    unfolding mask_ready_alt using s by (simp add: ex_nested_def)
qed

lemma ex_nested_child:
  "l \<in> {1, 2} \<Longrightarrow> first_child ex_nested l (0, 0, 0) = (0, 0, 0)"
  "l \<in> {1, 2} \<Longrightarrow> child_in_bounds ex_nested l (0, 0, 0)"
  "l \<in> {1, 2} \<Longrightarrow> level_cell ex_nested l (0, 0, 0)"
  by (auto simp: first_child_def child_in_bounds_def level_cell_def u2i_def offset_h_def
      offset_bnd_def size_h_def size_bnd_def ex_nested_def ex_grid_def)

section \<open>Claims on geometry and on failures\<close>

text \<open>
  Claim C8. \<open>get_grid(ilevel)\<close> with \<open>ilevel\<close> at or beyond the number of stored levels
  raises the non-existent-grid runtime error and returns no grid; within range it returns
  the grid stored for that level.
\<close>

theorem get_grid_bounds:
  "(ilevel \<ge> length (m_pgrids gh) \<longrightarrow>
      get_grid gh ilevel = Inl (RuntimeError ''Fatal: attempt to access non-existent grid'')) \<and>
   (ilevel < length (m_pgrids gh) \<longrightarrow> get_grid gh ilevel = Inr (m_pgrids gh ! ilevel))"
  by (simp add: get_grid_def)

theorem get_grid_bounds_witness:
  "(4::nat) \<ge> length (m_pgrids ex_hierarchy) \<and>
   get_grid ex_hierarchy 4 = Inl (RuntimeError ''Fatal: attempt to access non-existent grid'') \<and>
   (3::nat) < length (m_pgrids ex_hierarchy) \<and>
   get_grid ex_hierarchy 3 = Inr (m_pgrids ex_hierarchy ! 3)"
proof -
  have h: "(4::nat) \<ge> length (m_pgrids ex_hierarchy)" "(3::nat) < length (m_pgrids ex_hierarchy)"
    by (simp_all add: ex_hierarchy_def)
  show ?thesis
    using h get_grid_bounds[where ilevel=4 and gh=ex_hierarchy] get_grid_bounds[where ilevel=3 and gh=ex_hierarchy] by simp
qed

text \<open>
  Claim C4. After \<open>create_base_hierarchy(lmax)\<close>, \<open>levelmin()\<close> is \<open>lmax\<close>, and for every
  level \<open>i \<le> lmax\<close> and every dimension \<open>get_grid(i)->size(d)\<close> is \<open>2 ^ i\<close>, the ghost
  margin not counted.
\<close>

theorem create_base_hierarchy_extents:
  "levelmin (create_base_hierarchy uninit lmax gh) = lmax \<and>
   (\<forall>i\<le>lmax. \<forall>d. \<exists>g. get_grid (create_base_hierarchy uninit lmax gh) i = Inr g \<and> size_bnd g d = 2 ^ i)"
proof -
  have "\<exists>g. get_grid (create_base_hierarchy uninit lmax gh) i = Inr g \<and> size_bnd g d = 2 ^ i"
    if "i \<le> lmax" for i d
  proof -
    have "i < length [0..<Suc lmax]" using that by simp
    then have "map (base_grid uninit (h_nbnd gh)) [0..<Suc lmax] ! i = base_grid uninit (h_nbnd gh) i"
      by (metis add_0 nth_map nth_upt length_upt diff_zero)
    then show ?thesis using that
      by (simp add: get_grid_def create_base_hierarchy_grids base_grid_def del: upt_Suc)
  qed
  then show ?thesis by (simp add: levelmin_def create_base_hierarchy_levelmin)
qed

theorem create_base_hierarchy_extents_witness:
  "levelmin (create_base_hierarchy (\<lambda>q. 0) 7 ex_hierarchy) = 7 \<and> (5::nat) \<le> 7 \<and>
   (\<exists>g. get_grid (create_base_hierarchy (\<lambda>q. 0) 7 ex_hierarchy) 5 = Inr g \<and> size_bnd g 1 = 32)"
proof -
  have h: "(5::nat) \<le> 7" by simp
  from create_base_hierarchy_extents[where uninit="\<lambda>q. 0" and lmax=7 and gh=ex_hierarchy]
  have "levelmin (create_base_hierarchy (\<lambda>q. 0) 7 ex_hierarchy) = 7"
    and "\<exists>g. get_grid (create_base_hierarchy (\<lambda>q. 0) 7 ex_hierarchy) 5 = Inr g \<and> size_bnd g 1 = 2 ^ 5"
    using h by blast+
  then show ?thesis by simp
qed

text \<open>
  Claim C5. \<open>add_patch(xoff, yoff, zoff, nx, ny, nz)\<close> on a hierarchy whose finest level is
  \<open>L\<close> makes \<open>L + 1\<close> the finest level, with extents \<open>(nx, ny, nz)\<close>, relative offset
  \<open>(xoff, yoff, zoff)\<close> and absolute offset \<open>2 * (absolute offset of L + relative offset)\<close>
  in each dimension; a patch of extent 64 at relative offset 10 reports \<open>size(0) = 64\<close>
  and the absolute offset \<open>2 * (parent absolute offset) + 2 * 10\<close>.
\<close>

theorem add_patch_geometry:
  assumes "wf_hierarchy gh"
  shows "(\<exists>g. get_grid (add_patch uninit xoff yoff zoff nx ny nz gh) (Suc (levelmax gh)) = Inr g \<and>
           levelmax (add_patch uninit xoff yoff zoff nx ny nz gh) = Suc (levelmax gh) \<and>
           size_bnd g 0 = unat nx \<and> size_bnd g 1 = unat ny \<and> size_bnd g 2 = unat nz \<and>
           offset_bnd g 0 = xoff \<and> offset_bnd g 1 = yoff \<and> offset_bnd g 2 = zoff \<and>
           offset_abs (add_patch uninit xoff yoff zoff nx ny nz gh) (Suc (levelmax gh)) 0
             = 2 * (offset_abs gh (levelmax gh) 0 + xoff) \<and>
           offset_abs (add_patch uninit xoff yoff zoff nx ny nz gh) (Suc (levelmax gh)) 1
             = 2 * (offset_abs gh (levelmax gh) 1 + yoff) \<and>
           offset_abs (add_patch uninit xoff yoff zoff nx ny nz gh) (Suc (levelmax gh)) 2
             = 2 * (offset_abs gh (levelmax gh) 2 + zoff)) \<and>
         size_h (add_patch uninit 10 10 10 64 64 64 gh) (Suc (levelmax gh)) 0 = 64 \<and>
         offset_abs (add_patch uninit 10 10 10 64 64 64 gh) (Suc (levelmax gh)) 0
           = 2 * offset_abs gh (levelmax gh) 0 + 2 * 10"
proof -
  let ?n = "length (m_pgrids gh)"
  have n: "?n > 0" "?n < 2 ^ 32" and lx: "length (m_xoffabs gh) = ?n"
    and ly: "length (m_yoffabs gh) = ?n" and lz: "length (m_zoffabs gh) = ?n"
    using assms by (auto simp: wf_hierarchy_def)
  have lm: "levelmax gh = ?n - 1" using assms by (rule levelmax_wf)
  then have S: "Suc (levelmax gh) = ?n" using n by simp
  have ne: "m_xoffabs gh \<noteq> []" "m_yoffabs gh \<noteq> []" "m_zoffabs gh \<noteq> []"
    using n lx ly lz by auto
  have last: "last (m_xoffabs gh) = m_xoffabs gh ! (?n - 1)"
    "last (m_yoffabs gh) = m_yoffabs gh ! (?n - 1)"
    "last (m_zoffabs gh) = m_zoffabs gh ! (?n - 1)"
    using ne lx ly lz by (simp_all add: last_conv_nth)
  have lm': "levelmax (add_patch u xo yo zo mx my mz gh) = ?n" for u xo yo zo mx my mz
    using n by (simp add: levelmax_def add_patch_def mod_if)
  show ?thesis
    unfolding S lm lm'
    using n lx ly lz last
    by (simp add: get_grid_def add_patch_def offset_abs_def size_h_def nth_append)
qed

theorem add_patch_geometry_witness:
  "wf_hierarchy ex_hierarchy \<and>
   size_h (add_patch (\<lambda>q. 0) 10 10 10 64 64 64 ex_hierarchy) (Suc (levelmax ex_hierarchy)) 0 = 64 \<and>
   offset_abs (add_patch (\<lambda>q. 0) 10 10 10 64 64 64 ex_hierarchy) (Suc (levelmax ex_hierarchy)) 0
     = 2 * offset_abs ex_hierarchy (levelmax ex_hierarchy) 0 + 2 * 10"
proof -
  have h: "wf_hierarchy ex_hierarchy" by (simp add: wf_hierarchy_def ex_hierarchy_def)
  show ?thesis using h add_patch_geometry[OF h, where uninit="\<lambda>q. 0"] by blast
qed

text \<open>
  Claim C9. \<open>cut_patch\<close> needs the difference between each requested absolute offset and
  the level's current absolute offset to be even: an odd difference in any dimension
  fails the assertion, and with even differences the assertion does not fail and the
  call returns.
\<close>

theorem cut_patch_even_shift:
  "(\<not> shift_even gh ilevel xoff yoff zoff \<longrightarrow>
      cut_patch uninit nan ilevel xoff yoff zoff nx ny nz enforce_coarse_mean gh = Inl AssertionFailure) \<and>
   (shift_even gh ilevel xoff yoff zoff \<longrightarrow>
      (\<exists>gh'. cut_patch uninit nan ilevel xoff yoff zoff nx ny nz enforce_coarse_mean gh = Inr gh'))"
  using cut_patch_returns[of uninit nan ilevel xoff yoff zoff nx ny nz enforce_coarse_mean gh]
    cut_patch_fails[of uninit nan ilevel xoff yoff zoff nx ny nz enforce_coarse_mean gh]
  by blast

theorem cut_patch_even_shift_witness:
  "\<not> shift_even ex_hierarchy 3 4 5 4 \<and>
   cut_patch (\<lambda>q. 0) 0 3 4 5 4 2 2 2 True ex_hierarchy = Inl AssertionFailure \<and>
   shift_even ex_hierarchy 3 4 4 4 \<and>
   (\<exists>gh'. cut_patch (\<lambda>q. 0) 0 3 4 4 4 2 2 2 True ex_hierarchy = Inr gh')"
proof -
  have h: "\<not> shift_even ex_hierarchy 3 4 5 4" "shift_even ex_hierarchy 3 4 4 4"
    by (simp_all add: shift_even_def ex_hierarchy_def)
  show ?thesis
    using h cut_patch_even_shift[where gh=ex_hierarchy and ilevel=3 and xoff=4 and yoff=5 and zoff=4
        and uninit="\<lambda>q. 0" and nan=0 and nx=2 and ny=2 and nz=2 and enforce_coarse_mean=True]
      cut_patch_even_shift[where gh=ex_hierarchy and ilevel=3 and xoff=4 and yoff=4 and zoff=4
        and uninit="\<lambda>q. 0" and nan=0 and nx=2 and ny=2 and nz=2 and enforce_coarse_mean=True]
    by blast
qed

text \<open>
  Claim C2, as the code has it. \<open>fft_interpolate\<close> fails its assertion exactly when an
  extent of the fine array is odd, and returns when all three are even. \<open>fft_coarsen\<close>
  has no such check: it returns for every input.
\<close>

theorem spectral_coupler_parity:
  "(case dg_size v of (nxf, nyf, nzf) \<Rightarrow>
      (odd nxf \<or> odd nyf \<or> odd nzf \<longrightarrow>
         fft_interpolate splice_op V v margin from_basegrid = Inl AssertionFailure) \<and>
      (even nxf \<and> even nyf \<and> even nzf \<longrightarrow>
         (\<exists>r. fft_interpolate splice_op V v margin from_basegrid = Inr r))) \<and>
   (\<exists>R. fft_coarsen restrict_op w W = Inr R)"
  by (auto simp: fft_interpolate_def fft_coarsen_def Let_def even_iff_mod_2_eq_zero
      split: prod.splits)

theorem spectral_coupler_parity_witness:
  "dg_size ex_fine = (3, 4, 4) \<and> odd (3::nat) \<and>
   fft_interpolate (\<lambda>s n V v. ()) ex_coarse ex_fine 4 False = Inl AssertionFailure \<and>
   dg_size ex_coarse = (2, 2, 2) \<and> even (2::nat) \<and>
   (\<exists>r. fft_interpolate (\<lambda>s n V v. ()) ex_coarse ex_coarse 4 False = Inr r)"
proof -
  have h: "dg_size ex_fine = (3, 4, 4)" "dg_size ex_coarse = (2, 2, 2)"
    by (simp_all add: ex_fine_def ex_coarse_def)
  show ?thesis
    using h spectral_coupler_parity[where v=ex_fine and splice_op="\<lambda>s n V v. ()" and V=ex_coarse
        and margin=4 and from_basegrid=False and restrict_op="\<lambda>v V. ()" and w=ex_fine and W=ex_coarse]
      spectral_coupler_parity[where v=ex_coarse and splice_op="\<lambda>s n V v. ()" and V=ex_coarse
        and margin=4 and from_basegrid=False and restrict_op="\<lambda>v V. ()" and w=ex_fine and W=ex_coarse]
    by simp
qed

text \<open>
  The claim as written fails for \<open>fft_coarsen\<close>: with a fine array of extents
  \<open>(3, 4, 4)\<close> it returns a result instead of failing.
\<close>

theorem fft_coarsen_odd_counterexample:
  "dg_size ex_fine = (3, 4, 4) \<and>
   fft_coarsen (\<lambda>v V. ()) ex_fine ex_coarse = Inr ex_coarse"
  by (simp add: fft_coarsen_def ex_fine_def ex_coarse_def)

text \<open>
  Claim C1, as the code has it. When the constructor of the geometry completes, every
  level \<open>L > 0\<close> up to \<open>levelmax\<close> (so every \<open>L > levelmin\<close>) satisfies
  \<open>absoffsets[L] = 2 * absoffsets[L-1] + 2 * offsets[L]\<close> in every dimension.
  \<open>adjust_level\<close>, called for an existing level, keeps the equation of every level when
  the current and the new absolute offset differ, in every dimension, by an even amount
  that fits an \<open>int\<close>. A call of \<open>cut_patch\<close> for an existing level that returns (its
  assertion has then found the shift even) keeps the equation of every level, between
  the integers the offsets hold, when in every dimension the shift is not negative
  and the new absolute offset, the new relative offset of the level and the new
  relative offset of the next finer level fit an \<open>int\<close>.
\<close>

theorem cross_level_offsets:
  "(refinement_hierarchy_new lmin lmax pos ext = Inr rh \<and> lmin \<le> lmax \<longrightarrow>
      rh_levelmin rh = lmin \<and> rh_levelmax rh = lmax \<and>
      (\<forall>L. 0 < L \<and> L \<le> lmax \<longrightarrow> rh_offsets_agree rh L)) \<and>
   (wf_geometry r \<and> ilevel \<le> rh_levelmax r \<and> even_shift r ilevel oax oay oaz \<and>
    shift_fits_int r ilevel oax oay oaz \<longrightarrow>
      rh_levelmax (adjust_level ilevel nx ny nz oax oay oaz r) = rh_levelmax r \<and>
      (\<forall>L. 0 < L \<and> L \<le> rh_levelmax r \<and> rh_offsets_agree r L \<longrightarrow>
           rh_offsets_agree (adjust_level ilevel nx ny nz oax oay oaz r) L)) \<and>
   (wf_hierarchy gh \<and> jlevel < length (m_pgrids gh) \<and> shift_fits gh jlevel xoff yoff zoff \<and>
    cut_patch uninit nan jlevel xoff yoff zoff mx my mz enforce_coarse_mean gh = Inr gh' \<longrightarrow>
      length (m_pgrids gh') = length (m_pgrids gh) \<and>
      (\<forall>L. 0 < L \<and> L < length (m_pgrids gh) \<and> offsets_agree gh L \<longrightarrow> offsets_agree gh' L))"
proof (intro conjI impI)
  assume a: "refinement_hierarchy_new lmin lmax pos ext = Inr rh \<and> lmin \<le> lmax"
  show "rh_levelmin rh = lmin" "rh_levelmax rh = lmax"
    using a refinement_hierarchy_new_levels by blast+
  show "\<forall>L. 0 < L \<and> L \<le> lmax \<longrightarrow> rh_offsets_agree rh L"
    using a refinement_hierarchy_new_agrees by blast
next
  assume a: "wf_geometry r \<and> ilevel \<le> rh_levelmax r \<and> even_shift r ilevel oax oay oaz \<and>
    shift_fits_int r ilevel oax oay oaz"
  show "rh_levelmax (adjust_level ilevel nx ny nz oax oay oaz r) = rh_levelmax r"
    by (simp add: adjust_level_def Let_def split: prod.splits)
  show "\<forall>L. 0 < L \<and> L \<le> rh_levelmax r \<and> rh_offsets_agree r L \<longrightarrow>
           rh_offsets_agree (adjust_level ilevel nx ny nz oax oay oaz r) L"
    using a adjust_level_keeps_agreement by blast
next
  assume a: "wf_hierarchy gh \<and> jlevel < length (m_pgrids gh) \<and> shift_fits gh jlevel xoff yoff zoff \<and>
    cut_patch uninit nan jlevel xoff yoff zoff mx my mz enforce_coarse_mean gh = Inr gh'"
  then have cut: "cut_patch uninit nan jlevel xoff yoff zoff mx my mz enforce_coarse_mean gh = Inr gh'"
    by blast
  show "length (m_pgrids gh') = length (m_pgrids gh)"
    using cut_patch_result(2)[OF cut] a by blast
  show "\<forall>L. 0 < L \<and> L < length (m_pgrids gh) \<and> offsets_agree gh L \<longrightarrow> offsets_agree gh' L"
    using cut_patch_keeps_agreement[OF cut] a by blast
qed

theorem cross_level_offsets_witness:
  "refinement_hierarchy_new 2 3 (\<lambda>l. (2, 2, 2)) (\<lambda>l. (4, 4, 4)) = Inr ex_geometry \<and> (2::nat) \<le> 3 \<and>
   rh_offsets_agree ex_geometry 3 \<and>
   wf_geometry ex_geometry \<and> (3::nat) \<le> rh_levelmax ex_geometry \<and> even_shift ex_geometry 3 4 4 4 \<and>
   shift_fits_int ex_geometry 3 4 4 4 \<and>
   rh_offsets_agree (adjust_level 3 2 2 2 4 4 4 ex_geometry) 3 \<and>
   wf_hierarchy ex_hierarchy \<and> (3::nat) < length (m_pgrids ex_hierarchy) \<and>
   shift_fits ex_hierarchy 3 4 4 4 \<and> offsets_agree ex_hierarchy 3 \<and>
   (\<exists>gh'. cut_patch (\<lambda>q. 0) 0 3 4 4 4 2 2 2 True ex_hierarchy = Inr gh' \<and> offsets_agree gh' 3)"
proof -
  have h1: "refinement_hierarchy_new 2 3 (\<lambda>l. (2, 2, 2)) (\<lambda>l. (4, 4, 4)) = Inr ex_geometry"
    by (simp add: refinement_hierarchy_new_def ex_geometry_def relative_step_def forward_step_def
        too_large_def cube_def cdiv_def Let_def upt_rec numeral_3_eq_3)
  have h2: "wf_geometry ex_geometry" "(3::nat) \<le> rh_levelmax ex_geometry"
    "even_shift ex_geometry 3 4 4 4" "shift_fits_int ex_geometry 3 4 4 4"
    by (simp_all add: wf_geometry_def even_shift_def shift_fits_int_def ex_geometry_def)
  have h3: "wf_hierarchy ex_hierarchy" "(3::nat) < length (m_pgrids ex_hierarchy)"
    "shift_fits ex_hierarchy 3 4 4 4"
    by (simp_all add: wf_hierarchy_def shift_fits_def fits1_def finer_offset_def offset_h_def
        offset_bnd_def ex_hierarchy_def ex_grid_def)
  have h4: "offsets_agree ex_hierarchy 3"
    by (simp add: offsets_agree_def offset_abs_def offset_h_def offset_bnd_def ex_hierarchy_def
        ex_grid_def)
  have "shift_even ex_hierarchy 3 4 4 4"
    by (simp add: shift_even_def ex_hierarchy_def)
  then obtain g where g: "cut_patch (\<lambda>q. 0) 0 3 4 4 4 2 2 2 True ex_hierarchy = Inr g"
    using cut_patch_returns[of "\<lambda>q. 0" 0 3 4 4 4 2 2 2 True ex_hierarchy] by blast
  note t = cross_level_offsets[where lmin=2 and lmax=3 and pos="\<lambda>l. (2, 2, 2)" and ext="\<lambda>l. (4, 4, 4)"
      and rh=ex_geometry and r=ex_geometry and ilevel=3 and oax=4 and oay=4 and oaz=4
      and nx=2 and ny=2 and nz=2 and gh=ex_hierarchy and jlevel=3 and xoff=4 and yoff=4 and zoff=4
      and uninit="\<lambda>q. 0" and nan=0 and mx=2 and my=2 and mz=2 and enforce_coarse_mean=True
      and gh'=g]
  have "rh_levelmin ex_geometry = 2 \<and> rh_levelmax ex_geometry = 3 \<and>
        (\<forall>L. 0 < L \<and> L \<le> 3 \<longrightarrow> rh_offsets_agree ex_geometry L)"
    by (rule t[THEN conjunct1, THEN mp]) (intro conjI h1, simp)
  then have a: "rh_offsets_agree ex_geometry 3" by simp
  have "rh_levelmax (adjust_level 3 2 2 2 4 4 4 ex_geometry) = rh_levelmax ex_geometry \<and>
        (\<forall>L. 0 < L \<and> L \<le> rh_levelmax ex_geometry \<and> rh_offsets_agree ex_geometry L \<longrightarrow>
             rh_offsets_agree (adjust_level 3 2 2 2 4 4 4 ex_geometry) L)"
    by (rule t[THEN conjunct2, THEN conjunct1, THEN mp]) (intro conjI h2)
  then have b: "rh_offsets_agree (adjust_level 3 2 2 2 4 4 4 ex_geometry) 3"
    using h2(2) a by simp
  have "length (m_pgrids g) = length (m_pgrids ex_hierarchy) \<and>
          (\<forall>L. 0 < L \<and> L < length (m_pgrids ex_hierarchy) \<and> offsets_agree ex_hierarchy L
               \<longrightarrow> offsets_agree g L)"
    by (rule t[THEN conjunct2, THEN conjunct2, THEN mp]) (intro conjI h3 g)
  then have "offsets_agree g 3" using h3(2) h4 by simp
  then have c: "\<exists>gh'. cut_patch (\<lambda>q. 0) 0 3 4 4 4 2 2 2 True ex_hierarchy = Inr gh' \<and> offsets_agree gh' 3"
    using g by blast
  show ?thesis
    by (intro conjI h1 h2 h3 h4 a b c) simp
qed

text \<open>
  The claim as written fails for \<open>adjust_level\<close>: on the geometry the constructor
  returns for one refined level, moving level 3 from absolute offset 2 to 3 (an odd
  difference) leaves the relative offset where it was, and the equation of level 3,
  which lies above the new \<open>levelmin\<close>, no longer holds.
\<close>

theorem adjust_level_odd_counterexample:
  "refinement_hierarchy_new 2 3 (\<lambda>l. (2, 2, 2)) (\<lambda>l. (4, 4, 4)) = Inr ex_geometry \<and>
   rh_offsets_agree ex_geometry 3 \<and>
   rh_levelmin (adjust_level 3 4 4 4 3 2 2 ex_geometry) < 3 \<and>
   3 \<le> rh_levelmax (adjust_level 3 4 4 4 3 2 2 ex_geometry) \<and>
   \<not> rh_offsets_agree (adjust_level 3 4 4 4 3 2 2 ex_geometry) 3"
  by (simp add: refinement_hierarchy_new_def ex_geometry_def relative_step_def forward_step_def
      too_large_def cube_def cdiv_def Let_def upt_rec numeral_3_eq_3 rh_offsets_agree_def
      adjust_level_def c_int_def rh_find_new_levelmin_def)

section \<open>Claims on grid values\<close>

text \<open>
  Claim C7. After \<open>normalize_density(delta)\<close> returns, the mean over the cells of the
  coarsest level \<open>levelmin\<close> is zero in exact arithmetic, and on every level from
  \<open>levelmin\<close> to \<open>levelmax\<close> every cell has been decremented by one constant, the mean the
  coarsest level had before the call. Values are real numbers here; the call returns
  on every well-formed hierarchy whose coarsest level has cells.
\<close>

theorem normalize_density_mean:
  assumes wf: "wf_hierarchy delta" and lm: "levelmin delta \<le> levelmax delta"
    and ad: "\<forall>L. levelmin delta \<le> L \<and> L \<le> levelmax delta \<longrightarrow> addressable (m_pgrids delta ! L)"
    and pos: "0 < size_h delta (levelmin delta) 0 * size_h delta (levelmin delta) 1
                    * size_h delta (levelmin delta) 2"
  shows "\<exists>delta'. normalize_density delta = Inr delta' \<and>
           levelmin delta' = levelmin delta \<and> levelmax delta' = levelmax delta \<and>
           level_mean (m_pgrids delta' ! levelmin delta) = 0 \<and>
           (\<forall>L. levelmin delta \<le> L \<and> L \<le> levelmax delta \<longrightarrow>
              (\<forall>i < size_h delta L 0. \<forall>j < size_h delta L 1. \<forall>k < size_h delta L 2.
                 bnd_get (m_pgrids delta' ! L) (int i) (int j) (int k) =
                 bnd_get (m_pgrids delta ! L) (int i) (int j) (int k)
                   - level_mean (m_pgrids delta ! levelmin delta)))"
proof -
  let ?lmin = "levelmin delta" and ?lmax = "levelmax delta"
  let ?g = "m_pgrids delta ! ?lmin"
  have lmax: "?lmax = length (m_pgrids delta) - 1" using wf by (rule levelmax_wf)
  have n: "0 < length (m_pgrids delta)" using wf by (simp add: wf_hierarchy_def)
  have lmin_lt: "?lmin < length (m_pgrids delta)" using lm n unfolding lmax by arith
  have adg: "addressable ?g" using ad lm by simp
  define s where "s = level_mean ?g"
  have s: "fold (sum_cell ?g) (cells_of ?g) 0 / real (size_bnd ?g 0 * size_bnd ?g 1 * size_bnd ?g 2) = s"
    unfolding s_def by (rule sum_cells_level_mean[OF adg])
  have nd: "normalize_density delta = fold_err (subtract_level s) [?lmin..<Suc ?lmax] delta"
    using lmin_lt s by (simp add: normalize_density_def get_grid_def Let_def del: upt_Suc)
  have "\<forall>i\<in>set [?lmin..<Suc ?lmax]. i < length (m_pgrids delta)" using lmax n by auto
  from fold_err_subtract[OF this distinct_upt, of s] obtain d' where
    d': "fold_err (subtract_level s) [?lmin..<Suc ?lmax] delta = Inr d'"
    "length (m_pgrids d') = length (m_pgrids delta)" "m_levelmin d' = m_levelmin delta"
    "\<forall>L < length (m_pgrids delta). m_pgrids d' ! L =
        (if L \<in> set [?lmin..<Suc ?lmax]
         then fold (subtract_cell s) (cells_of (m_pgrids delta ! L)) (m_pgrids delta ! L)
         else m_pgrids delta ! L)"
    by blast
  have lev: "m_pgrids d' ! L = fold (subtract_cell s) (cells_of (m_pgrids delta ! L)) (m_pgrids delta ! L)"
    if "?lmin \<le> L" "L \<le> ?lmax" for L
  proof -
    have "L < length (m_pgrids delta)" using that(2) n unfolding lmax by arith
    moreover have "L \<in> set [?lmin..<Suc ?lmax]" using that by (simp del: upt_Suc)
    ultimately show ?thesis using d'(4) by (simp del: upt_Suc)
  qed
  have "level_mean (m_pgrids d' ! ?lmin) = level_mean ?g - s"
    using level_mean_subtract[OF adg, of s] pos lev[of ?lmin] lm by (simp add: size_h_def)
  then have mean0: "level_mean (m_pgrids d' ! ?lmin) = 0" by (simp add: s_def)
  have cells: "bnd_get (m_pgrids d' ! L) (int i) (int j) (int k) =
                 bnd_get (m_pgrids delta ! L) (int i) (int j) (int k) - s"
    if "?lmin \<le> L" "L \<le> ?lmax" "i < size_h delta L 0" "j < size_h delta L 1" "k < size_h delta L 2"
    for L i j k
    using subtract_level_cell[of "m_pgrids delta ! L" i j k s] ad that lev[of L]
    by (simp add: size_h_def)
  have "levelmax d' = ?lmax" by (simp add: levelmax_def d'(2))
  then show ?thesis
    using nd d'(1,3) mean0 cells by (auto simp: levelmin_def s_def)
qed

theorem normalize_density_mean_witness:
  "wf_hierarchy ex_hierarchy \<and> levelmin ex_hierarchy \<le> levelmax ex_hierarchy \<and>
   addressable (m_pgrids ex_hierarchy ! 2) \<and> addressable (m_pgrids ex_hierarchy ! 3) \<and>
   0 < size_h ex_hierarchy (levelmin ex_hierarchy) 0 * size_h ex_hierarchy (levelmin ex_hierarchy) 1
         * size_h ex_hierarchy (levelmin ex_hierarchy) 2 \<and>
   (\<exists>delta'. normalize_density ex_hierarchy = Inr delta' \<and>
        level_mean (m_pgrids delta' ! levelmin ex_hierarchy) = 0)"
proof -
  have lv: "levelmin ex_hierarchy = 2" "levelmax ex_hierarchy = 3"
    by (simp_all add: levelmin_def levelmax_def ex_hierarchy_def)
  have h1: "wf_hierarchy ex_hierarchy" by (simp add: wf_hierarchy_def ex_hierarchy_def)
  have h2: "levelmin ex_hierarchy \<le> levelmax ex_hierarchy" by (simp add: lv)
  have a: "addressable (m_pgrids ex_hierarchy ! 2)" "addressable (m_pgrids ex_hierarchy ! 3)"
    by (simp_all add: addressable_def size_bnd_def ex_hierarchy_def ex_grid_def)
  have h3: "\<forall>L. levelmin ex_hierarchy \<le> L \<and> L \<le> levelmax ex_hierarchy
              \<longrightarrow> addressable (m_pgrids ex_hierarchy ! L)"
  proof (intro allI impI)
    fix L assume "levelmin ex_hierarchy \<le> L \<and> L \<le> levelmax ex_hierarchy"
    then have "L = 2 \<or> L = 3" unfolding lv by arith
    then show "addressable (m_pgrids ex_hierarchy ! L)" using a by auto
  qed
  have h4: "0 < size_h ex_hierarchy (levelmin ex_hierarchy) 0 * size_h ex_hierarchy (levelmin ex_hierarchy) 1
         * size_h ex_hierarchy (levelmin ex_hierarchy) 2"
    unfolding lv by (simp add: size_h_def size_bnd_def ex_hierarchy_def ex_grid_def)
  from normalize_density_mean[OF h1 h2 h3 h4]
  have "\<exists>delta'. normalize_density ex_hierarchy = Inr delta' \<and>
        level_mean (m_pgrids delta' ! levelmin ex_hierarchy) = 0"
    by blast
  then show ?thesis by (intro conjI h1 h2 a h4)
qed

text \<open>
  Claim C3, as the code has it, in exact arithmetic. Take a call of \<open>cut_patch\<close> on an
  existing level above \<open>levelmin\<close> with an even shift, with extents of at least two cells
  that, with the ghost cells, an \<open>int\<close> can address, with the box it copies inside the
  allocated block of the old patch, and with the box of \<open>nx/2 * ny/2 * nz/2\<close> coarse
  cells that starts at the patch's new offset inside the allocated block of the
  coarser level. The call returns. With \<open>enforce_coarse_mean\<close> every cell of the new
  patch is the copied value plus the one constant (coarse mean minus fine mean), the
  patch's mean is the mean of those coarse cells, and the coarser level is unchanged.
  Without it the patch holds the copied values, each of those coarse cells is lowered
  by that constant, and their mean is the patch's mean. The coarse cells are the
  patch's footprint when the extents are even.
\<close>

theorem cut_patch_mean:
  assumes wf: "wf_hierarchy gh" and il: "ilevel < length (m_pgrids gh)"
    and lm: "levelmin gh < ilevel"
    and ev: "shift_even gh ilevel xoff yoff zoff"
    and ext: "2 \<le> unat nx" "2 \<le> unat ny" "2 \<le> unat nz"
    and fits: "unat nx + 2 * h_nbnd gh < 2 ^ 31" "unat ny + 2 * h_nbnd gh < 2 ^ 31"
      "unat nz + 2 * h_nbnd gh < 2 ^ 31"
    and src: "inside (m_pgrids gh ! ilevel) (cut_shift gh ilevel xoff yoff zoff)
                (unat nx) (unat ny) (unat nz)"
    and foot: "inside (m_pgrids gh ! (ilevel - 1)) (cut_offset gh ilevel xoff yoff zoff)
                (unat nx div 2) (unat ny div 2) (unat nz div 2)"
  shows "\<exists>gh'. cut_patch uninit nan ilevel xoff yoff zoff nx ny nz enforce_coarse_mean gh = Inr gh' \<and>
     (enforce_coarse_mean \<longrightarrow>
        (\<forall>i j k. i < unat nx \<and> j < unat ny \<and> k < unat nz \<longrightarrow>
           cell_at (m_pgrids gh' ! ilevel) (0, 0, 0) i j k =
             cell_at (m_pgrids gh ! ilevel) (cut_shift gh ilevel xoff yoff zoff) i j k
             + (mean_at (m_pgrids gh ! (ilevel - 1)) (cut_offset gh ilevel xoff yoff zoff)
                  (unat nx div 2) (unat ny div 2) (unat nz div 2)
                - mean_at (m_pgrids gh ! ilevel) (cut_shift gh ilevel xoff yoff zoff)
                    (unat nx) (unat ny) (unat nz))) \<and>
        mean_at (m_pgrids gh' ! ilevel) (0, 0, 0) (unat nx) (unat ny) (unat nz) =
          mean_at (m_pgrids gh ! (ilevel - 1)) (cut_offset gh ilevel xoff yoff zoff)
            (unat nx div 2) (unat ny div 2) (unat nz div 2) \<and>
        m_pgrids gh' ! (ilevel - 1) = m_pgrids gh ! (ilevel - 1)) \<and>
     (\<not> enforce_coarse_mean \<longrightarrow>
        (\<forall>i j k. i < unat nx \<and> j < unat ny \<and> k < unat nz \<longrightarrow>
           cell_at (m_pgrids gh' ! ilevel) (0, 0, 0) i j k =
             cell_at (m_pgrids gh ! ilevel) (cut_shift gh ilevel xoff yoff zoff) i j k) \<and>
        (\<forall>i j k. i < unat nx div 2 \<and> j < unat ny div 2 \<and> k < unat nz div 2 \<longrightarrow>
           cell_at (m_pgrids gh' ! (ilevel - 1)) (cut_offset gh ilevel xoff yoff zoff) i j k =
             cell_at (m_pgrids gh ! (ilevel - 1)) (cut_offset gh ilevel xoff yoff zoff) i j k
             - (mean_at (m_pgrids gh ! (ilevel - 1)) (cut_offset gh ilevel xoff yoff zoff)
                  (unat nx div 2) (unat ny div 2) (unat nz div 2)
                - mean_at (m_pgrids gh ! ilevel) (cut_shift gh ilevel xoff yoff zoff)
                    (unat nx) (unat ny) (unat nz))) \<and>
        mean_at (m_pgrids gh' ! (ilevel - 1)) (cut_offset gh ilevel xoff yoff zoff)
            (unat nx div 2) (unat ny div 2) (unat nz div 2) =
          mean_at (m_pgrids gh' ! ilevel) (0, 0, 0) (unat nx) (unat ny) (unat nz))"
proof -
  define dx dy dz where "dx = xoff - m_xoffabs gh ! ilevel"
    and "dy = yoff - m_yoffabs gh ! ilevel" and "dz = zoff - m_zoffabs gh ! ilevel"
  define old where "old = m_pgrids gh ! ilevel"
  define coarse where "coarse = m_pgrids gh ! (ilevel - 1)"
  define ox oy oz where "ox = m_offx old + dx div 2" and "oy = m_offy old + dy div 2"
    and "oz = m_offz old + dz div 2"
  define cells where "cells = idx3 (unat nx) (unat ny) (unat nz)"
  define half where "half = idx3 (unat nx div 2) (unat ny div 2) (unat nz div 2)"
  have sh: "cut_shift gh ilevel xoff yoff zoff = (dx, dy, dz)"
    by (simp add: cut_shift_def dx_def dy_def dz_def)
  have off: "cut_offset gh ilevel xoff yoff zoff = (ox, oy, oz)"
    by (simp add: cut_offset_def sh ox_def oy_def oz_def old_def)
  define fmean where "fmean = mean_at old (dx, dy, dz) (unat nx) (unat ny) (unat nz)"
  define cmean where "cmean = mean_at coarse (ox, oy, oz) (unat nx div 2) (unat ny div 2) (unat nz div 2)"
  have src': "inside old (dx, dy, dz) (unat nx) (unat ny) (unat nz)"
    using src by (simp add: sh old_def)
  have foot': "inside coarse (ox, oy, oz) (unat nx div 2) (unat ny div 2) (unat nz div 2)"
    using foot by (simp add: off coarse_def)
  have npos: "0 < unat nx * unat ny * unat nz"
    "0 < (unat nx div 2) * (unat ny div 2) * (unat nz div 2)"
    using ext by simp_all
  have evw: "dx mod 2 = 0 \<and> dy mod 2 = 0 \<and> dz mod 2 = 0"
    using ev by (simp add: shift_even_iff dx_def dy_def dz_def)

  \<comment> \<open>the copy loop\<close>
  define V where "V = (\<lambda>c::nat \<times> nat \<times> nat. bnd_get old (sint (word_of_nat (fst c) + dx))
      (sint (word_of_nat (fst (snd c)) + dy)) (sint (word_of_nat (snd (snd c)) + dz)))"
  define mnew0 where "mnew0 = MeshvarBnd_new (h_nbnd gh) (unat nx) (unat ny) (unat nz) ox oy oz uninit"
  define mnew1 where "mnew1 = mnew0\<lparr>m_pdata :=
      fold (\<lambda>c d. d(bnd_index mnew0 (sint (word_of_nat (fst c) + (0 :: 32 word)))
                       (sint (word_of_nat (fst (snd c)) + (0 :: 32 word)))
                       (sint (word_of_nat (snd (snd c)) + (0 :: 32 word))) := V c)) cells uninit\<rparr>"
  have cp: "fold (copy_cell old dx dy dz) cells (mnew0, 0, 0) = (mnew1, sum_list (map V cells), length cells)"
    by (simp add: fold_copy_cell mnew1_def V_def u2i_as_sint) (simp add: mnew0_def MeshvarBnd_new_def)
  have p0: "m_pdata mnew0 = uninit" by (simp add: mnew0_def MeshvarBnd_new_def)
  have ins0: "inside mnew0 (0, 0, 0) (unat nx) (unat ny) (unat nz)"
    unfolding mnew0_def by (rule inside_new[OF fits])
  have geo1: "bnd_index mnew1 ix iy iz = bnd_index mnew0 ix iy iz" for ix iy iz
    by (simp add: mnew1_def bnd_index_def)
  have ins1: "inside mnew1 (0, 0, 0) (unat nx) (unat ny) (unat nz)"
    using ins0 by (simp add: inside_def mnew1_def)
  have Vc: "V (i, j, k) = cell_at old (dx, dy, dz) i j k"
    if "i < unat nx" "j < unat ny" "k < unat nz" for i j k
    using inside_cell(1-3)[OF src' that] by (simp add: V_def cell_at_def)
  have new1: "cell_at mnew1 (0, 0, 0) i j k = cell_at old (dx, dy, dz) i j k"
    if "i < unat nx" "j < unat ny" "k < unat nz" for i j k
    using box_update_cell[OF ins0 that, where F = "\<lambda>c v. V c"] Vc[OF that]
    by (simp add: mnew1_def cells_def p0)
  have mean1: "mean_at mnew1 (0, 0, 0) (unat nx) (unat ny) (unat nz) = fmean"
    using mean_at_cong[where g' = mnew1 and st' = "(0, 0, 0)" and g = old and st = "(dx, dy, dz)"
        and t = 0 and hx = "unat nx" and hy = "unat ny" and hz = "unat nz"] new1 npos(1)
    by (simp add: fmean_def)
  have fs: "sum_list (map V cells) / real (length cells) = fmean"
    unfolding fmean_def mean_at_sum cells_def V_def sum_over_box[OF src'] ..

  \<comment> \<open>the hierarchy before the mean correction\<close>
  define gh1 where "gh1 = gh\<lparr>m_pgrids := (m_pgrids gh)[ilevel := mnew1],
                        m_xoffabs := (m_xoffabs gh)[ilevel := m_xoffabs gh ! ilevel + dx],
                        m_yoffabs := (m_yoffabs gh)[ilevel := m_yoffabs gh ! ilevel + dy],
                        m_zoffabs := (m_zoffabs gh)[ilevel := m_zoffabs gh ! ilevel + dz]\<rparr>"
  define gh2 where "gh2 = (if ilevel < levelmax gh1
                      then gh1\<lparr>m_pgrids := (m_pgrids gh1)[Suc ilevel :=
                             (m_pgrids gh1 ! Suc ilevel)
                               \<lparr>m_offx := m_offx (m_pgrids gh1 ! Suc ilevel) - dx,
                                m_offy := m_offy (m_pgrids gh1 ! Suc ilevel) - dy,
                                m_offz := m_offz (m_pgrids gh1 ! Suc ilevel) - dz\<rparr>]\<rparr>
                      else gh1)"
  define gh3 where "gh3 = enforce_mean nan enforce_coarse_mean ilevel nx ny nz
      (sum_list (map V cells)) (length cells) gh2"
  have cut: "cut_patch uninit nan ilevel xoff yoff zoff nx ny nz enforce_coarse_mean gh
               = Inr (find_new_levelmin gh3)"
  proof -
    have offb: "offset_bnd old 0 = m_offx old" "offset_bnd old 1 = m_offy old"
      "offset_bnd old 2 = m_offz old"
      by (simp_all add: offset_bnd_def)
    define cpv where "cpv = fold (copy_cell old dx dy dz) (idx3 (unat nx) (unat ny) (unat nz))
        (MeshvarBnd_new (h_nbnd gh) (unat nx) (unat ny) (unat nz)
           (offset_bnd old 0 + dx div 2) (offset_bnd old 1 + dy div 2) (offset_bnd old 2 + dz div 2)
           uninit, 0, 0)"
    have cpv: "cpv = (mnew1, sum_list (map V cells), length cells)"
      unfolding cpv_def offb using cp by (simp add: mnew0_def ox_def oy_def oz_def cells_def)
    define g1 where "g1 = gh\<lparr>m_pgrids := (m_pgrids gh)[ilevel := fst cpv],
                        m_xoffabs := (m_xoffabs gh)[ilevel := m_xoffabs gh ! ilevel + dx],
                        m_yoffabs := (m_yoffabs gh)[ilevel := m_yoffabs gh ! ilevel + dy],
                        m_zoffabs := (m_zoffabs gh)[ilevel := m_zoffabs gh ! ilevel + dz]\<rparr>"
    define g2 where "g2 = (if ilevel < levelmax g1
                      then g1\<lparr>m_pgrids := (m_pgrids g1)[Suc ilevel :=
                             (m_pgrids g1 ! Suc ilevel)
                               \<lparr>m_offx := m_offx (m_pgrids g1 ! Suc ilevel) - dx,
                                m_offy := m_offy (m_pgrids g1 ! Suc ilevel) - dy,
                                m_offz := m_offz (m_pgrids g1 ! Suc ilevel) - dz\<rparr>]\<rparr>
                      else g1)"
    have "cut_patch uninit nan ilevel xoff yoff zoff nx ny nz enforce_coarse_mean gh =
        Inr (find_new_levelmin (enforce_mean nan enforce_coarse_mean ilevel nx ny nz
          (fst (snd cpv)) (snd (snd cpv)) g2))"
      unfolding cut_patch_def g2_def g1_def cpv_def old_def dx_def dy_def dz_def Let_def
      using evw[unfolded dx_def dy_def dz_def] by (simp only: simp_thms if_False)
    moreover have "g1 = gh1" by (simp add: g1_def gh1_def cpv)
    then have "g2 = gh2" by (simp add: g2_def gh2_def)
    ultimately show ?thesis
      by (simp add: gh3_def cpv)
  qed
  have lt: "0 < ilevel" "ilevel - 1 < length (m_pgrids gh)" "ilevel - 1 \<noteq> ilevel"
    "ilevel - 1 \<noteq> Suc ilevel"
    using lm il by simp_all
  have g2: "m_pgrids gh2 ! ilevel = mnew1" "m_pgrids gh2 ! (ilevel - 1) = coarse"
    "levelmin gh2 = levelmin gh" "length (m_pgrids gh2) = length (m_pgrids gh)"
    using il lt by (simp_all add: gh2_def gh1_def levelmin_def coarse_def)
  have offs: "offset_bnd mnew1 0 = ox" "offset_bnd mnew1 1 = oy" "offset_bnd mnew1 2 = oz"
    by (simp_all add: offset_bnd_def mnew1_def mnew0_def MeshvarBnd_new_def)
  have cs: "fold (coarse_cell coarse ox oy oz) half (0, 0) =
      (sum_list (map (\<lambda>c. cell_at coarse (ox, oy, oz) (fst c) (fst (snd c)) (snd (snd c))) half),
       length half)"
    unfolding fold_coarse_cell half_def sum_over_box[OF foot'] by simp
  have cm: "sum_list (map (\<lambda>c. cell_at coarse (ox, oy, oz) (fst c) (fst (snd c)) (snd (snd c))) half)
              / real (length half) = cmean"
    unfolding cmean_def mean_at_sum half_def ..
  define corr where "corr = cmean - fmean"
  have em: "gh3 = (if enforce_coarse_mean
        then gh2\<lparr>m_pgrids := (m_pgrids gh2)[ilevel := fold (shift_fine_cell nan (Some corr)) cells mnew1]\<rparr>
        else gh2\<lparr>m_pgrids := (m_pgrids gh2)[ilevel - 1 :=
                  fold (shift_coarse_cell nan (Some corr) ox oy oz) half coarse]\<rparr>)"
  proof -
    have n0: "length half \<noteq> 0" "length cells \<noteq> 0"
      using npos by (simp_all add: half_def cells_def length_idx3)
    have q: "fsub (fdiv (sum_list (map (\<lambda>c. cell_at coarse (ox, oy, oz) (fst c) (fst (snd c))
                 (snd (snd c))) half)) (length half))
               (fdiv (sum_list (map V cells)) (length cells)) = Some corr"
      using n0 cm fs by (simp add: fdiv_def fsub_def corr_def)
    show ?thesis
      unfolding gh3_def enforce_mean_def Let_def g2 offs half_def[symmetric] cells_def[symmetric] cs
        fst_conv snd_conv q
      using lm by simp
  qed
  define gh' where "gh' = find_new_levelmin gh3"
  have pg: "m_pgrids gh' = m_pgrids gh3" by (simp add: gh'_def)
  have fineT: "cell_at (fold (shift_fine_cell nan (Some corr)) cells mnew1) (0, 0, 0) i j k
                 = cell_at mnew1 (0, 0, 0) i j k + corr"
    if "i < unat nx" "j < unat ny" "k < unat nz" for i j k
    using box_update_cell[OF ins1 that, where F = "\<lambda>c v. v + corr"]
    by (simp add: shift_fine_fold_store u2i_as_sint cells_def)
  have coarseF: "cell_at (fold (shift_coarse_cell nan (Some corr) ox oy oz) half coarse) (ox, oy, oz) i j k
                 = cell_at coarse (ox, oy, oz) i j k - corr"
    if "i < unat nx div 2" "j < unat ny div 2" "k < unat nz div 2" for i j k
    using box_update_cell[OF foot' that, where F = "\<lambda>c v. v - corr"]
    by (simp add: shift_coarse_fold_store half_def)
  have T1: "cell_at (m_pgrids gh' ! ilevel) (0, 0, 0) i j k = cell_at old (dx, dy, dz) i j k + corr"
    if "enforce_coarse_mean" "i < unat nx" "j < unat ny" "k < unat nz" for i j k
    using fineT[OF that(2-4)] new1[OF that(2-4)] that(1) il g2 by (simp add: pg em)
  have T2: "mean_at (m_pgrids gh' ! ilevel) (0, 0, 0) (unat nx) (unat ny) (unat nz) = cmean"
    if "enforce_coarse_mean"
    using mean_at_cong[where g' = "m_pgrids gh' ! ilevel" and st' = "(0, 0, 0)" and g = old
        and st = "(dx, dy, dz)" and t = corr and hx = "unat nx" and hy = "unat ny" and hz = "unat nz"]
      T1[OF that] npos(1)
    by (simp add: fmean_def[symmetric] corr_def)
  have T3: "m_pgrids gh' ! (ilevel - 1) = coarse" if "enforce_coarse_mean"
    using that lt g2 by (simp add: pg em)
  have F0: "m_pgrids gh' ! ilevel = mnew1" if "\<not> enforce_coarse_mean"
    using that lt g2 il by (simp add: pg em)
  have F1: "cell_at (m_pgrids gh' ! ilevel) (0, 0, 0) i j k = cell_at old (dx, dy, dz) i j k"
    if "\<not> enforce_coarse_mean" "i < unat nx" "j < unat ny" "k < unat nz" for i j k
    using new1[OF that(2-4)] by (simp add: F0[OF that(1)])
  have F2: "cell_at (m_pgrids gh' ! (ilevel - 1)) (ox, oy, oz) i j k
              = cell_at coarse (ox, oy, oz) i j k - corr"
    if "\<not> enforce_coarse_mean" "i < unat nx div 2" "j < unat ny div 2" "k < unat nz div 2" for i j k
    using coarseF[OF that(2-4)] that(1) lt g2 by (simp add: pg em)
  have F3: "mean_at (m_pgrids gh' ! (ilevel - 1)) (ox, oy, oz)
              (unat nx div 2) (unat ny div 2) (unat nz div 2)
            = mean_at (m_pgrids gh' ! ilevel) (0, 0, 0) (unat nx) (unat ny) (unat nz)"
    if "\<not> enforce_coarse_mean"
    using mean_at_cong[where g' = "m_pgrids gh' ! (ilevel - 1)" and st' = "(ox, oy, oz)" and g = coarse
        and st = "(ox, oy, oz)" and t = "- corr" and hx = "unat nx div 2" and hy = "unat ny div 2"
        and hz = "unat nz div 2"]
      F2[OF that] npos(2) mean1
    by (simp add: cmean_def[symmetric] corr_def F0[OF that])
  have cut': "cut_patch uninit nan ilevel xoff yoff zoff nx ny nz enforce_coarse_mean gh = Inr gh'"
    by (simp add: cut gh'_def)
  show ?thesis
    unfolding sh off old_def[symmetric] coarse_def[symmetric] fmean_def[symmetric]
      cmean_def[symmetric] corr_def[symmetric]
    using cut' T1 T2 T3 F1 F2 F3 by blast
qed


theorem cut_patch_mean_witness:
  "wf_hierarchy ex_hierarchy \<and> levelmin ex_hierarchy < 3 \<and> shift_even ex_hierarchy 3 4 4 4 \<and>
   inside (m_pgrids ex_hierarchy ! 3) (cut_shift ex_hierarchy 3 4 4 4) 2 2 2 \<and>
   inside (m_pgrids ex_hierarchy ! 2) (cut_offset ex_hierarchy 3 4 4 4) 1 1 1 \<and>
   (\<exists>gh'. cut_patch (\<lambda>q. 0) 0 3 4 4 4 2 2 2 True ex_hierarchy = Inr gh' \<and>
      mean_at (m_pgrids gh' ! 3) (0, 0, 0) 2 2 2
        = mean_at (m_pgrids ex_hierarchy ! 2) (cut_offset ex_hierarchy 3 4 4 4) 1 1 1 \<and>
      m_pgrids gh' ! 2 = m_pgrids ex_hierarchy ! 2) \<and>
   (\<exists>gh'. cut_patch (\<lambda>q. 0) 0 3 4 4 4 2 2 2 False ex_hierarchy = Inr gh' \<and>
      mean_at (m_pgrids gh' ! 2) (cut_offset ex_hierarchy 3 4 4 4) 1 1 1
        = mean_at (m_pgrids gh' ! 3) (0, 0, 0) 2 2 2)"
proof -
  have h1: "wf_hierarchy ex_hierarchy" by (simp add: wf_hierarchy_def ex_hierarchy_def)
  have h2: "3 < length (m_pgrids ex_hierarchy)" by (simp add: ex_hierarchy_def)
  have h3: "levelmin ex_hierarchy < 3" by (simp add: levelmin_def ex_hierarchy_def)
  have h4: "shift_even ex_hierarchy 3 4 4 4" by (simp add: shift_even_def ex_hierarchy_def)
  have u: "unat (2 :: 32 word) = 2" by simp
  have h5: "2 \<le> unat (2 :: 32 word)" by simp
  have h6: "unat (2 :: 32 word) + 2 * h_nbnd ex_hierarchy < 2 ^ 31"
    by (simp add: ex_hierarchy_def)
  have h7: "inside (m_pgrids ex_hierarchy ! 3) (cut_shift ex_hierarchy 3 4 4 4) 2 2 2"
    by (simp add: inside_def cut_shift_def ex_hierarchy_def ex_grid_def)
  have h8: "inside (m_pgrids ex_hierarchy ! 2) (cut_offset ex_hierarchy 3 4 4 4) 1 1 1"
    by (simp add: inside_def cut_offset_def cut_shift_def ex_hierarchy_def ex_grid_def)
  have h7': "inside (m_pgrids ex_hierarchy ! 3) (cut_shift ex_hierarchy 3 4 4 4)
               (unat (2 :: 32 word)) (unat (2 :: 32 word)) (unat (2 :: 32 word))"
    using h7 by simp
  have h8': "inside (m_pgrids ex_hierarchy ! (3 - 1)) (cut_offset ex_hierarchy 3 4 4 4)
               (unat (2 :: 32 word) div 2) (unat (2 :: 32 word) div 2) (unat (2 :: 32 word) div 2)"
    using h8 by simp
  have t: "\<exists>gh'. cut_patch (\<lambda>q. 0) 0 3 4 4 4 2 2 2 True ex_hierarchy = Inr gh' \<and>
      mean_at (m_pgrids gh' ! 3) (0, 0, 0) 2 2 2
        = mean_at (m_pgrids ex_hierarchy ! 2) (cut_offset ex_hierarchy 3 4 4 4) 1 1 1 \<and>
      m_pgrids gh' ! 2 = m_pgrids ex_hierarchy ! 2"
    using cut_patch_mean[OF h1 h2 h3 h4 h5 h5 h5 h6 h6 h6 h7' h8', where uninit = "\<lambda>q. 0" and nan = 0
        and enforce_coarse_mean = True]
    by simp blast
  have f: "\<exists>gh'. cut_patch (\<lambda>q. 0) 0 3 4 4 4 2 2 2 False ex_hierarchy = Inr gh' \<and>
      mean_at (m_pgrids gh' ! 2) (cut_offset ex_hierarchy 3 4 4 4) 1 1 1
        = mean_at (m_pgrids gh' ! 3) (0, 0, 0) 2 2 2"
    using cut_patch_mean[OF h1 h2 h3 h4 h5 h5 h5 h6 h6 h6 h7' h8', where uninit = "\<lambda>q. 0" and nan = 0
        and enforce_coarse_mean = False]
    by simp blast
  show ?thesis by (intro conjI h1 h3 h4 h7 h8 t f)
qed

text \<open>
  The claim as written fails for a patch one cell wide. The loop over the coarse cells
  runs over \<open>nx/2 = 0\<close> cells, the coarse mean is \<open>0.0 / 0\<close>, and with \<open>enforce_coarse_mean\<close>
  the cell of the patch ends as NaN, whatever the copied value was: it holds the value
  that stands for NaN, here \<open>0\<close> and \<open>1\<close> in turn, not the copied value plus a constant
  that makes two means equal.
\<close>

theorem cut_patch_unit_extent_counterexample:
  "levelmin ex_hierarchy < 3 \<and> shift_even ex_hierarchy 3 2 2 2 \<and>
   idx3 (unat (1 :: 32 word) div 2) (unat (1 :: 32 word) div 2) (unat (1 :: 32 word) div 2) = [] \<and>
   \<not> isl (cut_patch (\<lambda>q. 0) 0 3 2 2 2 1 1 1 True ex_hierarchy) \<and>
   cell_at (m_pgrids (projr (cut_patch (\<lambda>q. 0) 0 3 2 2 2 1 1 1 True ex_hierarchy)) ! 3)
     (0, 0, 0) 0 0 0 = 0 \<and>
   cell_at (m_pgrids (projr (cut_patch (\<lambda>q. 0) 1 3 2 2 2 1 1 1 True ex_hierarchy)) ! 3)
     (0, 0, 0) 0 0 0 = 1"
proof -
  have c: "cell_at (m_pgrids (projr (cut_patch (\<lambda>q. 0) nan 3 2 2 2 1 1 1 True ex_hierarchy)) ! 3)
             (0, 0, 0) 0 0 0 = nan \<and>
           \<not> isl (cut_patch (\<lambda>q. 0) nan 3 2 2 2 1 1 1 True ex_hierarchy)" for nan
    by (simp add: cut_patch_unit_extent)
  show ?thesis
    using c[of 0] c[of 1]
    by (simp add: levelmin_def shift_even_def idx3_def ex_hierarchy_def)
qed

section \<open>Claims on assignment\<close>




section \<open>Claims on the refinement mask\<close>




end
